theory Spec2Isabelle
  imports Complex_Main "HOL-Library.AList" "HOL-Library.Char_ord" "HOL-Library.List_Lexorder"
    "HOL-Library.Multiset"
begin

section \<open>HamLib utility functions: a model of hamlib\_utils.py\<close>

text \<open>
  The module works on Python \<open>str\<close> values. A \<open>str\<close> is modelled as a \<^typ>\<open>string\<close>,
  one \<^typ>\<open>char\<close> per code point, so the model covers text whose code points are below
  256. Byte input is decoded on entry (\<open>data.decode()\<close>) and the normalizer encodes its
  result on exit; the detector and the normalizer are modelled on the text between the
  two. The parser, whose errors matter, is modelled from its input on, decoding included.

  A Python \<open>dict\<close> is an association list whose keys are distinct and stand in insertion
  order; \<open>d[k] = v\<close> is \<^const>\<open>AList.update\<close>, which overwrites the value of a key that
  is present and appends the pair otherwise. A Python \<open>set\<close> of strings is a list of
  distinct strings.
\<close>

subsection \<open>String operations of the Python library\<close>

text \<open>\<open>s.split(sep)\<close> for a separator of one character: one more part than separators.\<close>

fun split_on :: "char \<Rightarrow> string \<Rightarrow> string list" where
  "split_on sep [] = [[]]"
| "split_on sep (c # cs) =
     (if c = sep then [] # split_on sep cs
      else (case split_on sep cs of
              [] \<Rightarrow> [[c]]
            | p # ps \<Rightarrow> (c # p) # ps))"

text \<open>\<open>s.find(c)\<close>: the index of the first occurrence, or \<open>-1\<close>.\<close>

fun find_chr :: "char \<Rightarrow> string \<Rightarrow> int" where
  "find_chr c [] = -1"
| "find_chr c (x # xs) =
     (if x = c then 0
      else (let i = find_chr c xs in if i < 0 then -1 else i + 1))"

text \<open>
  The slices \<open>s[:i]\<close> and \<open>s[i:]\<close> for an index \<open>i \<ge> 0\<close> (the only ones the module
  takes: both follow a successful \<open>find\<close>).
\<close>

definition slice_to :: "string \<Rightarrow> int \<Rightarrow> string" where
  "slice_to s i = take (nat i) s"

definition slice_from :: "string \<Rightarrow> int \<Rightarrow> string" where
  "slice_from s i = drop (nat i) s"

subsection \<open>determine\_qubit\_count\<close>

text \<open>
  A term of the sparse operator list is a pair of a dictionary from qubit index (a Python
  \<open>int\<close>) to operator letter, and a coefficient. \<open>max(pauli_dict.keys())\<close> is only taken
  of a dictionary that is not empty.
\<close>

type_synonym pauli_dict = "(int \<times> string) list"

fun qubit_count_step :: "int \<Rightarrow> pauli_dict \<times> 'c \<Rightarrow> int" where
  "qubit_count_step max_qubit (pauli_dict, _) =
     (case map fst pauli_dict of
        [] \<Rightarrow> max_qubit
      | k # ks \<Rightarrow>
          (let max_in_term = fold max ks k
           in if max_in_term > max_qubit then max_in_term else max_qubit))"

definition determine_qubit_count :: "(pauli_dict \<times> 'c) list \<Rightarrow> int" where
  "determine_qubit_count terms = foldl qubit_count_step 0 terms + 1"

text \<open>Every qubit index that some term of the list records.\<close>

definition observed_indices :: "(pauli_dict \<times> 'c) list \<Rightarrow> int set" where
  "observed_indices terms = (\<Union>t \<in> set terms. fst ` set (fst t))"

subsection \<open>parse\_instance\_variables\<close>

definition instance_step :: "(string \<times> string) list \<Rightarrow> string \<Rightarrow> (string \<times> string) list" where
  "instance_step variables part =
     (if CHR ''-'' \<in> set part then
        (let index = find_chr CHR ''-'' part;
             var = slice_to part index;
             val = slice_from part (index + 1)
         in AList.update var val variables)
      else variables)"

definition parse_instance_variables :: "string \<Rightarrow> (string \<times> string) list" where
  "parse_instance_variables instance_name =
     foldl instance_step [] (split_on CHR ''_'' instance_name)"


subsection \<open>Character classes and whitespace\<close>

text \<open>
  The whitespace of \<open>str.strip()\<close>, \<open>str.split()\<close> and of \<open>\s\<close> in a \<open>str\<close> pattern, below
  code point 256: tab, line feed, vertical tab, form feed, carriage return, the four
  separators \<open>0x1C\<close> to \<open>0x1F\<close>, space, next line and no-break space. \<open>\d\<close> below 256 is
  an ASCII digit.
\<close>

definition is_space :: "char \<Rightarrow> bool" where
  "is_space c \<longleftrightarrow> c \<in> set [CHR 0x09, CHR 0x0A, CHR 0x0B, CHR 0x0C, CHR 0x0D,
      CHR 0x1C, CHR 0x1D, CHR 0x1E, CHR 0x1F, CHR 0x20, CHR 0x85, CHR 0xA0]"

definition is_digit :: "char \<Rightarrow> bool" where
  "is_digit c \<longleftrightarrow> c \<in> set ''0123456789''"

definition strip :: "string \<Rightarrow> string" where
  "strip s = rev (dropWhile is_space (rev (dropWhile is_space s)))"

text \<open>\<open>s.split()\<close>: the maximal runs of characters that are not whitespace.\<close>

function split_ws :: "string \<Rightarrow> string list" where
  "split_ws [] = []"
| "split_ws (c # cs) =
     (if is_space c then split_ws cs
      else takeWhile (\<lambda>x. \<not> is_space x) (c # cs)
             # split_ws (dropWhile (\<lambda>x. \<not> is_space x) cs))"
  by pat_completeness auto
termination
  by (relation "measure length") (auto simp: less_Suc_eq_le length_dropWhile_le)

text \<open>\<open>sep.join(xs)\<close>.\<close>

fun join_str :: "string \<Rightarrow> string list \<Rightarrow> string" where
  "join_str sep [] = []"
| "join_str sep [x] = x"
| "join_str sep (x # y # ys) = x @ sep @ join_str sep (y # ys)"

subsection \<open>Regular expressions\<close>

text \<open>
  The patterns of the module use character classes, greedy and lazy repetition of a
  class, optional parts, concatenation and capturing groups. A pattern is modelled by its
  backtracking matcher: applied to the text at the current position, it returns every way
  the pattern can match there, as the captured groups and the text left after the match,
  in the order in which the backtracking engine of \<open>re\<close> tries them. The engine's match is
  the first of them.
\<close>

type_synonym matcher = "string \<Rightarrow> (string list \<times> string) list"

text \<open>One character of a class.\<close>

definition re_chr :: "(char \<Rightarrow> bool) \<Rightarrow> matcher" where
  "re_chr P s = (case s of [] \<Rightarrow> [] | c # r \<Rightarrow> if P c then [([], r)] else [])"

text \<open>\<open>P*\<close> and \<open>P+\<close> are greedy, the longest run first; \<open>P*?\<close> is lazy, the shortest first.\<close>

definition re_star :: "(char \<Rightarrow> bool) \<Rightarrow> matcher" where
  "re_star P s = map (\<lambda>k. ([], drop k s)) (rev [0..<Suc (length (takeWhile P s))])"

definition re_plus :: "(char \<Rightarrow> bool) \<Rightarrow> matcher" where
  "re_plus P s = map (\<lambda>k. ([], drop k s)) (rev [1..<Suc (length (takeWhile P s))])"

definition re_lazy_star :: "(char \<Rightarrow> bool) \<Rightarrow> matcher" where
  "re_lazy_star P s = map (\<lambda>k. ([], drop k s)) [0..<Suc (length (takeWhile P s))]"

text \<open>\<open>m?\<close> tries \<open>m\<close> first, then the empty match.\<close>

definition re_opt :: "matcher \<Rightarrow> matcher" where
  "re_opt m s = m s @ [([], s)]"

definition re_seq :: "matcher \<Rightarrow> matcher \<Rightarrow> matcher" where
  "re_seq m1 m2 s =
     concat (map (\<lambda>(g1, r1). map (\<lambda>(g2, r2). (g1 @ g2, r2)) (m2 r1)) (m1 s))"

definition re_eps :: matcher where
  "re_eps s = [([], s)]"

definition re_cat :: "matcher list \<Rightarrow> matcher" where
  "re_cat ms = foldr re_seq ms re_eps"

text \<open>A capturing group records the text its body consumed (no group is nested here).\<close>

definition re_group :: "matcher \<Rightarrow> matcher" where
  "re_group m s = map (\<lambda>(g, r). (take (length s - length r) s # g, r)) (m s)"

text \<open>\<open>re.match\<close>: a match at the start of the text only.\<close>

definition re_match :: "matcher \<Rightarrow> string \<Rightarrow> (string list \<times> string) option" where
  "re_match m s = (case m s of [] \<Rightarrow> None | x # _ \<Rightarrow> Some x)"

text \<open>\<open>re.search\<close>: the first position where the pattern matches.\<close>

fun re_search :: "matcher \<Rightarrow> string \<Rightarrow> (string list \<times> string) option" where
  "re_search m [] = re_match m []"
| "re_search m (c # cs) =
     (case re_match m (c # cs) of Some x \<Rightarrow> Some x | None \<Rightarrow> re_search m cs)"

text \<open>
  \<open>re.findall\<close>: the groups of the matches found from left to right, each search starting
  where the last match ended. After an empty match the scan moves on by one character
  (no pattern of the module matches the empty text).
\<close>

function re_findall :: "matcher \<Rightarrow> string \<Rightarrow> string list list" where
  "re_findall m s =
     (case re_match m s of
        None \<Rightarrow> (case s of [] \<Rightarrow> [] | _ # cs \<Rightarrow> re_findall m cs)
      | Some (g, r) \<Rightarrow>
          if length r < length s then g # re_findall m r
          else (case s of [] \<Rightarrow> [g] | _ # cs \<Rightarrow> g # re_findall m cs))"
  by pat_completeness auto
termination
  by (relation "measure (\<lambda>(m, s). length s)") auto

subsection \<open>needs\_normalization and normalize\_data\_format\<close>

text \<open>The pattern \<^verbatim>\<open>\(\s*-?\d+(\.\d+)?(\+|\-)?\d*?j?\s*\)\s*\[.*?\]\<close>; \<open>.\<close> is any character but a line feed.\<close>

definition canonical_re :: matcher where
  "canonical_re = re_cat
     [re_chr (\<lambda>c. c = CHR ''(''), re_star is_space, re_opt (re_chr (\<lambda>c. c = CHR ''-'')),
      re_plus is_digit,
      re_opt (re_group (re_cat [re_chr (\<lambda>c. c = CHR ''.''), re_plus is_digit])),
      re_opt (re_group (re_chr (\<lambda>c. c = CHR ''+'' \<or> c = CHR ''-''))),
      re_lazy_star is_digit, re_opt (re_chr (\<lambda>c. c = CHR ''j'')), re_star is_space,
      re_chr (\<lambda>c. c = CHR '')''), re_star is_space, re_chr (\<lambda>c. c = CHR ''[''),
      re_lazy_star (\<lambda>c. c \<noteq> CHR 0x0A), re_chr (\<lambda>c. c = CHR '']'')]"

definition needs_normalization :: "string \<Rightarrow> string" where
  "needs_normalization data =
     (if re_search canonical_re data \<noteq> None then ''No'' else ''Yes'')"

text \<open>The pattern \<^verbatim>\<open>(\S+)\s*\[(.*?)\]\<close>.\<close>

definition loose_term_re :: matcher where
  "loose_term_re = re_cat
     [re_group (re_plus (\<lambda>c. \<not> is_space c)), re_star is_space, re_chr (\<lambda>c. c = CHR ''[''),
      re_group (re_lazy_star (\<lambda>c. c \<noteq> CHR 0x0A)), re_chr (\<lambda>c. c = CHR '']'')]"

text \<open>The canonical text of a term, \<^verbatim>\<open>f"({coeff}) [{ops}]"\<close>.\<close>

definition canonical_term :: "string \<Rightarrow> string \<Rightarrow> string" where
  "canonical_term coeff ops = ''('' @ coeff @ '') ['' @ ops @ '']''"

text \<open>The body of the loop over the terms: \<open>normalized_data\<close> grows by at most one term.\<close>

definition normalize_term :: "string list \<Rightarrow> string \<Rightarrow> string list" where
  "normalize_term normalized_data term0 =
     (let term = strip term0 in
      if term \<noteq> [] then
        (case re_match loose_term_re term of
           Some ([coeff, ops0], _) \<Rightarrow>
             (let ops = strip ops0;
                  normalized_term = canonical_term coeff ops
              in normalized_data @ [normalized_term])
         | _ \<Rightarrow> normalized_data)
      else normalized_data)"

definition normalize_data_format :: "string \<Rightarrow> string" where
  "normalize_data_format data =
     join_str ('' +'' @ [CHR 0x0A]) (foldl normalize_term [] (split_on CHR ''+'' data))"

text \<open>
  Modelled from the spec: \<open>normalize_if_needed\<close> is not a function of the module (its two
  parts are). The specification describes it as the composition that returns the blob
  unchanged when the format detector reports it canonical, and applies the format
  normalizer otherwise.
\<close>

definition normalize_if_needed :: "string \<Rightarrow> string" where
  "normalize_if_needed blob =
     (if needs_normalization blob = ''No'' then blob else normalize_data_format blob)"

text \<open>
  The terms that the normalizer emits, as pairs of a coefficient and an operator text:
  the coefficient is not empty and has no whitespace, the operator text is stripped and
  has no line feed and no closing bracket, and neither has a \<open>+\<close>. \<open>canonical\<close> is the
  text of such a term, and \<open>rewrap\<close> puts its coefficient in one more pair of parentheses.
\<close>

definition term_parts_ok :: "string \<times> string \<Rightarrow> bool" where
  "term_parts_ok t \<longleftrightarrow>
     fst t \<noteq> [] \<and> (\<forall>c \<in> set (fst t). \<not> is_space c \<and> c \<noteq> CHR ''+'')
     \<and> (\<forall>c \<in> set (snd t). c \<noteq> CHR 0x0A \<and> c \<noteq> CHR '']'' \<and> c \<noteq> CHR ''+'')
     \<and> strip (snd t) = snd t"

definition canonical :: "string \<times> string \<Rightarrow> string" where
  "canonical t = canonical_term (fst t) (snd t)"

definition rewrap :: "string \<times> string \<Rightarrow> string \<times> string" where
  "rewrap t = (''('' @ fst t @ '')'', snd t)"

subsection \<open>parse\_hamiltonian\_to\_sparsepauliop\<close>

datatype error = ValueError | IndexError | OSError | UnicodeDecodeError

text \<open>
  The value that \<open>int(digits)\<close> returns for a text of ASCII digits. Python's integers are
  unbounded.
\<close>

definition digit_val :: "char \<Rightarrow> int" where
  "digit_val c = int (of_char c) - 48"

definition int_of_digits :: "string \<Rightarrow> int" where
  "int_of_digits ds = foldl (\<lambda>n c. 10 * n + digit_val c) 0 ds"

text \<open>The pattern \<^verbatim>\<open>([XYZ])(\d+)\<close>, matched at the start of a token by \<open>re.match\<close>.\<close>

definition operator_re :: matcher where
  "operator_re = re_cat
     [re_group (re_chr (\<lambda>c. c \<in> set ''XYZ'')), re_group (re_plus is_digit)]"

definition match_operator :: "string \<Rightarrow> (string \<times> int) option" where
  "match_operator op =
     (case re_match operator_re op of
        Some ([pauli_op, digits], _) \<Rightarrow> Some (pauli_op, int_of_digits digits)
      | _ \<Rightarrow> None)"

definition operator_step :: "pauli_dict \<Rightarrow> string \<Rightarrow> pauli_dict" where
  "operator_step pauli_dict op =
     (case match_operator op of
        Some (pauli_op, qubit_index) \<Rightarrow> AList.update qubit_index pauli_op pauli_dict
      | None \<Rightarrow> pauli_dict)"

text \<open>
  The operator map of one term: the inner loop over \<open>ops.split()\<close>, when every call of
  \<open>int\<close> in it returns.
\<close>

definition parse_operators :: "string \<Rightarrow> pauli_dict" where
  "parse_operators ops = foldl operator_step [] (split_ws ops)"

text \<open>
  \<open>int(digits)\<close> with its error: the conversion of a decimal text to an integer raises
  \<open>ValueError\<close> when the text has more than 4300 digits (the default limit of the
  interpreter on this conversion).
\<close>

definition py_int :: "string \<Rightarrow> error + int" where
  "py_int digits =
     (if 4300 < length digits then Inl ValueError else Inr (int_of_digits digits))"

text \<open>The body of the inner loop and the inner loop, with the error of \<open>int\<close>.\<close>

definition try_operator_step :: "pauli_dict \<Rightarrow> string \<Rightarrow> error + pauli_dict" where
  "try_operator_step pauli_dict op =
     (case re_match operator_re op of
        Some ([pauli_op, digits], _) \<Rightarrow>
          (case py_int digits of
             Inl e \<Rightarrow> Inl e
           | Inr qubit_index \<Rightarrow> Inr (AList.update qubit_index pauli_op pauli_dict))
      | _ \<Rightarrow> Inr pauli_dict)"

fun try_operators :: "pauli_dict \<Rightarrow> string list \<Rightarrow> error + pauli_dict" where
  "try_operators pauli_dict [] = Inr pauli_dict"
| "try_operators pauli_dict (op # ops_list) =
     (case try_operator_step pauli_dict op of
        Inl e \<Rightarrow> Inl e
      | Inr pauli_dict' \<Rightarrow> try_operators pauli_dict' ops_list)"

text \<open>The pattern \<^verbatim>\<open>\(([^)]+)\)\s*\[(.*?)\]\<close>.\<close>

definition term_re :: matcher where
  "term_re = re_cat
     [re_chr (\<lambda>c. c = CHR ''(''), re_group (re_plus (\<lambda>c. c \<noteq> CHR '')'')),
      re_chr (\<lambda>c. c = CHR '')''), re_star is_space, re_chr (\<lambda>c. c = CHR ''[''),
      re_group (re_lazy_star (\<lambda>c. c \<noteq> CHR 0x0A)), re_chr (\<lambda>c. c = CHR '']'')]"

text \<open>
  The loop over the matches. The constructor \<open>complex\<close> of Python, a parser of
  floating-point literals, is the parameter \<open>py_complex\<close>; it returns \<open>None\<close> where
  \<open>complex\<close> raises \<open>ValueError\<close>. No exception is caught, so the first one ends the loop.
  A match of the pattern has two groups; the last case is there for totality only.
\<close>

fun parse_terms :: "(string \<Rightarrow> 'c option) \<Rightarrow> string list list \<Rightarrow> (pauli_dict \<times> 'c) list
    \<Rightarrow> error + (pauli_dict \<times> 'c) list" where
  "parse_terms py_complex [] parsed_pauli_list = Inr parsed_pauli_list"
| "parse_terms py_complex (t # ts) parsed_pauli_list =
     (case t of
        [coeff0, ops] \<Rightarrow>
          (case py_complex (strip coeff0) of
             None \<Rightarrow> Inl ValueError
           | Some coeff \<Rightarrow>
               (case try_operators [] (split_ws ops) of
                  Inl e \<Rightarrow> Inl e
                | Inr pauli_dict \<Rightarrow>
                    parse_terms py_complex ts (parsed_pauli_list @ [(pauli_dict, coeff)])))
      | _ \<Rightarrow> Inl ValueError)"

text \<open>
  The input is a \<open>str\<close> or a \<open>bytes\<close> object. \<open>bytes.decode()\<close>, the UTF-8 decoder, is the
  parameter \<open>py_decode\<close>; it returns \<open>None\<close> where the decoder raises \<open>UnicodeDecodeError\<close>.
\<close>

datatype pydata = Str string | Bytes string

definition decode_data :: "(string \<Rightarrow> string option) \<Rightarrow> pydata \<Rightarrow> error + string" where
  "decode_data py_decode data =
     (case data of
        Str text \<Rightarrow> Inr text
      | Bytes b \<Rightarrow> (case py_decode b of None \<Rightarrow> Inl UnicodeDecodeError | Some text \<Rightarrow> Inr text))"

definition parse_hamiltonian_to_sparsepauliop ::
    "(string \<Rightarrow> string option) \<Rightarrow> (string \<Rightarrow> 'c option) \<Rightarrow> pydata
      \<Rightarrow> error + (pauli_dict \<times> 'c) list" where
  "parse_hamiltonian_to_sparsepauliop py_decode py_complex data =
     (case decode_data py_decode data of
        Inl e \<Rightarrow> Inl e
      | Inr text \<Rightarrow> parse_terms py_complex (re_findall term_re text) [])"

text \<open>
  The digits that \<open>int\<close> is applied to for a token: the longest run of digits after a
  first letter among X, Y, Z (\<open>int\<close> is not called when the run is empty).
\<close>

definition index_digits :: "string \<Rightarrow> string" where
  "index_digits tok =
     (case tok of
        [] \<Rightarrow> []
      | c # r \<Rightarrow> if c \<in> set ''XYZ'' then takeWhile is_digit r else [])"


subsection \<open>is\_numeric\<close>

text \<open>
  \<open>float(s)\<close> of a text: whether the text is a float literal, and which binary64 number
  it denotes. A finite float is held as \<open>Num q\<close>, with \<open>q\<close> the rational number that the
  float equals (the two zeros are one value: they compare equal). Two floats compare as
  their values do; a comparison with \<open>nan\<close> is false.
\<close>

datatype pyfloat = NInf | Num rat | PInf | NaN

fun float_lt :: "pyfloat \<Rightarrow> pyfloat \<Rightarrow> bool" where
  "float_lt NaN _ = False"
| "float_lt _ NaN = False"
| "float_lt _ NInf = False"
| "float_lt NInf _ = True"
| "float_lt PInf _ = False"
| "float_lt (Num a) PInf = True"
| "float_lt (Num a) (Num b) = (a < b)"

text \<open>
  An underscore of a numeric literal stands between two digits; \<open>prev\<close> is the character
  before the current one (at first the null character).
\<close>

fun underscores_ok :: "char \<Rightarrow> string \<Rightarrow> bool" where
  "underscores_ok prev [] = (prev \<noteq> CHR ''_'')"
| "underscores_ok prev (c # cs) =
     (if c = CHR ''_'' then is_digit prev \<and> underscores_ok c cs
      else if prev = CHR ''_'' then is_digit c \<and> underscores_ok c cs
      else underscores_ok c cs)"

text \<open>
  The whitespace \<open>float\<close> strips: the ASCII whitespace of C, and (turned into spaces
  first) the whitespace beyond ASCII.
\<close>

definition is_float_space :: "char \<Rightarrow> bool" where
  "is_float_space c \<longleftrightarrow>
     c \<in> set [CHR 0x09, CHR 0x0A, CHR 0x0B, CHR 0x0C, CHR 0x0D, CHR 0x20, CHR 0x85, CHR 0xA0]"

definition float_strip :: "string \<Rightarrow> string" where
  "float_strip s = rev (dropWhile is_float_space (rev (dropWhile is_float_space s)))"

fun take_sign :: "string \<Rightarrow> bool \<times> string" where
  "take_sign [] = (False, [])"
| "take_sign (c # cs) =
     (if c = CHR ''-'' then (True, cs)
      else if c = CHR ''+'' then (False, cs)
      else (False, c # cs))"

definition to_lower :: "char \<Rightarrow> char" where
  "to_lower c =
     (if CHR ''A'' \<le> c \<and> c \<le> CHR ''Z'' then char_of (of_char c + (32::nat)) else c)"

definition scale10 :: "int \<Rightarrow> int \<Rightarrow> rat" where
  "scale10 m e = (if 0 \<le> e then of_int m * 10 ^ nat e else of_int m / 10 ^ nat (- e))"

text \<open>
  The conversion of the exact value of a literal to binary64 is correctly rounded: to the
  nearest float, a tie to the float with the even significand. For \<open>a\<close> from \<open>2 ^ e\<close> up
  to \<open>2 ^ (e + 1)\<close> the floats around \<open>a\<close> are the multiples of \<open>2 ^ (e - 52)\<close>; below
  \<open>2 ^ (- 1022)\<close>, the subnormal range, they are the multiples of \<open>2 ^ (- 1074)\<close>. A result
  of \<open>2 ^ 1024\<close> or more is an infinity. \<open>bit_length\<close> is the number of binary digits of a
  positive integer.
\<close>

function bit_length :: "int \<Rightarrow> int" where
  "bit_length n = (if n \<le> 0 then 0 else 1 + bit_length (n div 2))"
  by pat_completeness auto
termination
  by (relation "measure nat") auto

declare bit_length.simps [simp del]

definition pow2 :: "int \<Rightarrow> rat" where
  "pow2 e = (if 0 \<le> e then 2 ^ nat e else 1 / 2 ^ nat (- e))"

text \<open>
  For \<open>q > 0\<close>, the \<open>e\<close> with \<open>2 ^ e \<le> q < 2 ^ (e + 1)\<close>: one of two candidates, which the
  bit lengths of the numerator and the denominator give.
\<close>

definition floor_log2 :: "rat \<Rightarrow> int" where
  "floor_log2 q =
     (let (a, b) = quotient_of q;
          d = bit_length a - bit_length b
      in if pow2 d \<le> q then d else d - 1)"

definition round_half_even :: "rat \<Rightarrow> int" where
  "round_half_even r =
     (let n = \<lfloor>r\<rfloor>; f = r - of_int n
      in if f < 1 / 2 then n
         else if 1 / 2 < f then n + 1
         else if even n then n else n + 1)"

definition to_binary64 :: "rat \<Rightarrow> pyfloat" where
  "to_binary64 q =
     (if q = 0 then Num 0
      else (let a = \<bar>q\<bar>;
                e = max (floor_log2 a) (- 1022);
                m = round_half_even (a / pow2 (e - 52))
            in if 1023 < e \<or> (e = 1023 \<and> m = 9007199254740992)
               then (if q < 0 then NInf else PInf)
               else Num ((if q < 0 then - 1 else 1) * of_int m * pow2 (e - 52))))"

text \<open>The exponent part: nothing, or \<open>e\<close> or \<open>E\<close>, an optional sign and digits.\<close>

definition parse_exponent :: "string \<Rightarrow> int option" where
  "parse_exponent s =
     (case s of
        [] \<Rightarrow> Some 0
      | c # cs \<Rightarrow>
          if c = CHR ''e'' \<or> c = CHR ''E'' then
            (let (neg, ds) = take_sign cs in
             if ds \<noteq> [] \<and> list_all is_digit ds
             then Some (if neg then - int_of_digits ds else int_of_digits ds)
             else None)
          else None)"

text \<open>Digits with an optional point (at least one digit in all), then the exponent part.\<close>

definition parse_decimal :: "string \<Rightarrow> rat option" where
  "parse_decimal s =
     (let whole = takeWhile is_digit s;
          r1 = dropWhile is_digit s;
          frac = (case r1 of
                    [] \<Rightarrow> []
                  | c # cs \<Rightarrow> if c = CHR ''.'' then takeWhile is_digit cs else []);
          r2 = (case r1 of
                  [] \<Rightarrow> []
                | c # cs \<Rightarrow> if c = CHR ''.'' then dropWhile is_digit cs else r1)
      in if whole @ frac = [] then None
         else (case parse_exponent r2 of
                 None \<Rightarrow> None
               | Some e \<Rightarrow>
                   Some (scale10 (int_of_digits (whole @ frac)) (e - int (length frac)))))"

definition parse_float_text :: "string \<Rightarrow> pyfloat option" where
  "parse_float_text s =
     (let (neg, r) = take_sign s; l = map to_lower r in
      if l = ''inf'' \<or> l = ''infinity'' then Some (if neg then NInf else PInf)
      else if l = ''nan'' then Some NaN
      else (case parse_decimal r of
              None \<Rightarrow> None
            | Some q \<Rightarrow> Some (to_binary64 (if neg then - q else q))))"

definition py_float :: "string \<Rightarrow> error + pyfloat" where
  "py_float s =
     (if \<not> underscores_ok (CHR 0x00) s then Inl ValueError
      else (case parse_float_text (float_strip (filter (\<lambda>c. c \<noteq> CHR ''_'') s)) of
              None \<Rightarrow> Inl ValueError
            | Some f \<Rightarrow> Inr f))"


subsection \<open>extract\_variable\_ranges\<close>

text \<open>
  The sort key \<open>(is_numeric(x), float(x) if is_numeric(x) else x)\<close> is a pair
  \<open>(False, x)\<close> of a text or a pair \<open>(True, f)\<close> of a float. Python compares the pairs by
  their first components, \<open>False\<close> below \<open>True\<close>, and pairs with equal first components by
  their second ones, which then have the same type.
\<close>

datatype order_key = NonNumeric string | Numeric pyfloat

definition value_key :: "string \<Rightarrow> order_key" where
  "value_key x = (case py_float x of Inr f \<Rightarrow> Numeric f | Inl _ \<Rightarrow> NonNumeric x)"

fun key_lt :: "order_key \<Rightarrow> order_key \<Rightarrow> bool" where
  "key_lt (NonNumeric a) (NonNumeric b) = (a < b)"
| "key_lt (NonNumeric a) (Numeric g) = True"
| "key_lt (Numeric f) (NonNumeric b) = False"
| "key_lt (Numeric f) (Numeric g) = float_lt f g"

text \<open>
  \<open>sorted(xs, key=...)\<close> is a stable sort that compares keys with \<open><\<close> only. It is modelled
  by a stable insertion sort: each element, from left to right, goes before the first
  element whose key is greater. On keys that \<open><\<close> orders totally every stable sort returns
  this list.
\<close>

fun insort_lt :: "('k \<Rightarrow> 'k \<Rightarrow> bool) \<Rightarrow> ('a \<Rightarrow> 'k) \<Rightarrow> 'a \<Rightarrow> 'a list \<Rightarrow> 'a list" where
  "insort_lt lt key x [] = [x]"
| "insort_lt lt key x (y # ys) =
     (if lt (key x) (key y) then x # y # ys else y # insort_lt lt key x ys)"

definition py_sorted :: "('k \<Rightarrow> 'k \<Rightarrow> bool) \<Rightarrow> ('a \<Rightarrow> 'k) \<Rightarrow> 'a list \<Rightarrow> 'a list" where
  "py_sorted lt key xs = foldl (\<lambda>acc x. insort_lt lt key x acc) [] xs"

text \<open>The sorted values of one variable; \<open>vs\<close> lists the set in its iteration order.\<close>

definition sorted_values :: "string list \<Rightarrow> string list" where
  "sorted_values vs = py_sorted key_lt value_key vs"

text \<open>
  The data store is outside the module: \<open>files path\<close> is the list of the top-level keys
  of the file at \<open>path\<close>, or \<open>None\<close> when the file cannot be opened (\<open>h5py.File\<close> raises
  \<open>OSError\<close>).
\<close>

type_synonym store = "string \<Rightarrow> string list option"
type_synonym value_sets = "(string \<times> string list) list"
type_synonym report = "(string \<times> value_sets) list"

definition set_add :: "string \<Rightarrow> string list \<Rightarrow> string list" where
  "set_add v vs = (if v \<in> set vs then vs else vs @ [v])"

text \<open>A variable that is not yet in \<open>variable_values\<close> gets the empty set first.\<close>

fun add_value :: "value_sets \<Rightarrow> string \<times> string \<Rightarrow> value_sets" where
  "add_value variable_values (var, val) =
     (case map_of variable_values var of
        None \<Rightarrow> AList.update var (set_add val []) variable_values
      | Some vs \<Rightarrow> AList.update var (set_add val vs) variable_values)"

text \<open>The body of the loop over the keys of a file; \<open>fixed\<close> is the optional constraint.\<close>

definition scan_item :: "(string \<times> string) option \<Rightarrow> value_sets \<Rightarrow> string \<Rightarrow> value_sets" where
  "scan_item fixed variable_values item =
     (let instance_name =
            (if CHR '':'' \<in> set item
             then (case split_on CHR '':'' item of p # _ \<Rightarrow> p | [] \<Rightarrow> item)
             else item);
          variables = parse_instance_variables instance_name
      in if (case fixed of
               None \<Rightarrow> True
             | Some (fixed_variable, fixed_value) \<Rightarrow>
                 map_of variables fixed_variable = Some fixed_value)
         then foldl add_value variable_values variables
         else variable_values)"

text \<open>
  \<open>fixed_variable, fixed_value = fixed_var_value.split('=')\<close> raises \<open>ValueError\<close> unless
  the split has two parts.
\<close>

definition parse_fixed :: "string list \<Rightarrow> error + (string \<times> string) option" where
  "parse_fixed rest =
     (case rest of
        [] \<Rightarrow> Inr None
      | fixed_var_value # _ \<Rightarrow>
          (case split_on CHR ''='' fixed_var_value of
             [fixed_variable, fixed_value] \<Rightarrow> Inr (Some (fixed_variable, fixed_value))
           | _ \<Rightarrow> Inl ValueError))"

text \<open>The body of the loop over the entries; \<open>parts[1]\<close> raises \<open>IndexError\<close> on one part.\<close>

definition scan_entry :: "store \<Rightarrow> report \<Rightarrow> string \<Rightarrow> error + report" where
  "scan_entry files results entry =
     (case split_on CHR '':'' entry of
        function_name # file_path # rest \<Rightarrow>
          (case parse_fixed rest of
             Inl e \<Rightarrow> Inl e
           | Inr fixed \<Rightarrow>
               (case files file_path of
                  None \<Rightarrow> Inl OSError
                | Some keys \<Rightarrow>
                    (let variable_values = foldl (scan_item fixed) [] keys
                     in if variable_values \<noteq> []
                        then Inr (AList.update function_name variable_values results)
                        else Inr results)))
      | _ \<Rightarrow> Inl IndexError)"

fun collect_results :: "store \<Rightarrow> report \<Rightarrow> string list \<Rightarrow> error + report" where
  "collect_results files results [] = Inr results"
| "collect_results files results (entry # entries) =
     (case scan_entry files results entry of
        Inl e \<Rightarrow> Inl e
      | Inr results' \<Rightarrow> collect_results files results' entries)"

text \<open>
  What the function prints: a line with the name of each data set, and below it a line
  for each variable with the sorted list of its values. The values of a variable are
  handed to the sort in the order in which they were added (Python iterates a set in an
  order of its own, which the sort then sees).
\<close>

datatype line = Header string | Values string "string list"

definition print_results :: "report \<Rightarrow> line list" where
  "print_results results =
     concat (map (\<lambda>(function_name, variables).
        Header function_name
          # map (\<lambda>(var, values). Values var (sorted_values values)) variables)
        results)"

text \<open>
  The function ends after the printing loop, with no \<open>return\<close> statement: what it
  returns is Python's \<open>None\<close>, whatever \<open>results\<close> holds. The model returns the printed
  lines and the returned value, \<open>None\<close> for Python's \<open>None\<close>.
\<close>

definition extract_variable_ranges ::
    "store \<Rightarrow> string list \<Rightarrow> error + (line list \<times> report option)" where
  "extract_variable_ranges files file_input =
     (case collect_results files [] file_input of
        Inl e \<Rightarrow> Inl e
      | Inr results \<Rightarrow> Inr (print_results results, None))"

text \<open>
  The operator a token starts with: a letter among X, Y, Z and the longest run of digits
  after it, which is not empty. What follows the digits is not looked at.
\<close>

definition prefix_operator :: "string \<Rightarrow> (string \<times> int) option" where
  "prefix_operator tok =
     (case tok of
        [] \<Rightarrow> None
      | c # r \<Rightarrow>
          if c \<in> set ''XYZ'' \<and> takeWhile is_digit r \<noteq> []
          then Some ([c], int_of_digits (takeWhile is_digit r))
          else None)"

section \<open>Properties\<close>

subsection \<open>Qubit count\<close>

lemma fold_max_Max: "fold max ks (k::int) = Max (insert k (set ks))"
  using Max.set_eq_fold [of k ks] by simp

lemma Max_insert_Max:
  fixes m :: int
  assumes "finite A" "finite B"
  shows "Max (insert (Max (insert m A)) B) = Max (insert m A \<union> B)"
proof (cases "B = {}")
  case True
  then show ?thesis by simp
next
  case False
  have "Max (insert m A \<union> B) = max (Max (insert m A)) (Max B)"
    using assms False by (intro Max_Un) simp_all
  also have "\<dots> = Max (insert (Max (insert m A)) B)"
    using assms False by simp
  finally show ?thesis by simp
qed

lemma qubit_count_step_Max:
  "qubit_count_step m t = Max (insert m (fst ` set (fst t)))"
proof (cases t)
  case (Pair d c)
  show ?thesis
  proof (cases d)
    case Nil
    with Pair show ?thesis by simp
  next
    case (Cons p ps)
    have "fold max (map fst ps) (fst p) = Max (insert (fst p) (fst ` set ps))"
      by (simp add: fold_max_Max)
    moreover have "max m (Max (insert (fst p) (fst ` set ps)))
        = Max (insert m (insert (fst p) (fst ` set ps)))"
      by simp
    ultimately show ?thesis using Pair Cons
      by (simp add: Let_def max_def)
  qed
qed

lemma foldl_qubit_count_step:
  "foldl qubit_count_step m terms = Max (insert m (observed_indices terms))"
proof (induction terms arbitrary: m)
  case Nil
  show ?case by (simp add: observed_indices_def)
next
  case (Cons t terms)
  have fin: "finite (observed_indices terms)" "finite (fst ` set (fst t))"
    by (simp_all add: observed_indices_def)
  have "foldl qubit_count_step m (t # terms)
      = Max (insert (Max (insert m (fst ` set (fst t)))) (observed_indices terms))"
    by (simp add: Cons.IH qubit_count_step_Max)
  also have "\<dots> = Max (insert m (fst ` set (fst t)) \<union> observed_indices terms)"
    using fin by (intro Max_insert_Max) simp_all
  also have "insert m (fst ` set (fst t)) \<union> observed_indices terms
      = insert m (observed_indices (t # terms))"
    by (auto simp: observed_indices_def)
  finally show ?case .
qed

text \<open>
  Claim C1, as the code has it: the count is one more than the greatest of 0 and every
  qubit index recorded in the list. With no recorded index it is 1; with a recorded index,
  and no negative one, it is one more than the greatest index.
\<close>

theorem determine_qubit_count_max:
  "determine_qubit_count terms = 1 + Max (insert 0 (observed_indices terms))
   \<and> (observed_indices terms = {} \<longrightarrow> determine_qubit_count terms = 1)
   \<and> (observed_indices terms \<noteq> {} \<and> (\<forall>i \<in> observed_indices terms. 0 \<le> i) \<longrightarrow>
        determine_qubit_count terms = 1 + Max (observed_indices terms))"
proof (intro conjI impI)
  show eq: "determine_qubit_count terms = 1 + Max (insert 0 (observed_indices terms))"
    by (simp add: determine_qubit_count_def foldl_qubit_count_step)
  show "determine_qubit_count terms = 1" if "observed_indices terms = {}"
    using eq that by simp
  show "determine_qubit_count terms = 1 + Max (observed_indices terms)"
    if "observed_indices terms \<noteq> {} \<and> (\<forall>i \<in> observed_indices terms. 0 \<le> i)"
  proof -
    have fin: "finite (observed_indices terms)"
      by (simp add: observed_indices_def)
    from that obtain i where "i \<in> observed_indices terms" "0 \<le> i" by blast
    then have "0 \<le> Max (observed_indices terms)"
      using fin by (meson Max_ge order_trans)
    then have "Max (insert 0 (observed_indices terms)) = Max (observed_indices terms)"
      using fin that by (simp add: max_def)
    with eq show ?thesis by simp
  qed
qed

theorem determine_qubit_count_max_witness:
  "determine_qubit_count [([(0, ''X''), (5, ''Z'')], 1 :: complex), ([], 2), ([(3, ''Y'')], 3)] = 6
   \<and> determine_qubit_count [([], 1 :: complex)] = 1"
proof
  let ?ts = "[([(0, ''X''), (5, ''Z'')], 1 :: complex), ([], 2), ([(3, ''Y'')], 3)]"
  have obs: "observed_indices ?ts = {0, 5, 3}"
    by (auto simp: observed_indices_def)
  then have "observed_indices ?ts \<noteq> {} \<and> (\<forall>i \<in> observed_indices ?ts. 0 \<le> i)"
    by simp
  then have "determine_qubit_count ?ts = 1 + Max (observed_indices ?ts)"
    using determine_qubit_count_max [of ?ts] by blast
  then show "determine_qubit_count ?ts = 6"
    by (simp add: obs)
next
  have "observed_indices [([], 1 :: complex)] = {}"
    by (simp add: observed_indices_def)
  then show "determine_qubit_count [([], 1 :: complex)] = 1"
    using determine_qubit_count_max [of "[([], 1 :: complex)]"] by blast
qed

text \<open>
  Claim C1 as the specification states it fails: for the empty list, and for a list of
  identity terms only, the count is 1 and not 0.
\<close>

theorem determine_qubit_count_empty_counterexample:
  "determine_qubit_count ([] :: (pauli_dict \<times> complex) list) \<noteq> 0
   \<and> determine_qubit_count [([], 1 :: complex), ([], 2)] \<noteq> 0"
  by (simp add: determine_qubit_count_def)

subsection \<open>Instance names\<close>

lemma split_on_no_sep: "sep \<notin> set s \<Longrightarrow> split_on sep s = [s]"
  by (induction s) auto

lemma split_on_not_Nil: "split_on sep s \<noteq> []"
  by (induction s) (auto split: list.splits)

lemma split_on_append:
  "split_on sep (a @ sep # b) = split_on sep a @ split_on sep b"
proof (induction a)
  case Nil
  show ?case by simp
next
  case (Cons c a)
  obtain p ps where ps: "split_on sep a = p # ps"
    using split_on_not_Nil [of sep a] by (cases "split_on sep a") auto
  show ?case using Cons ps by simp
qed

lemma find_chr_first: "c \<notin> set pre \<Longrightarrow> find_chr c (pre @ c # post) = int (length pre)"
  by (induction pre) (auto simp: Let_def)

lemma slice_to_length: "slice_to (pre @ post) (int (length pre)) = pre"
  by (simp add: slice_to_def)

lemma slice_from_length: "slice_from (pre @ c # post) (int (length pre) + 1) = post"
proof -
  have "nat (int (length pre) + 1) = Suc (length pre)" by simp
  then show ?thesis by (simp add: slice_from_def)
qed

lemma instance_step_first_hyphen:
  "CHR ''-'' \<notin> set var \<Longrightarrow>
   instance_step variables (var @ CHR ''-'' # val) = AList.update var val variables"
  by (simp add: instance_step_def find_chr_first slice_to_length slice_from_length Let_def)

lemma split_on_join:
  "segs \<noteq> [] \<Longrightarrow> \<forall>s \<in> set segs. sep \<notin> set s \<Longrightarrow> split_on sep (join_str [sep] segs) = segs"
proof (induction segs)
  case Nil
  then show ?case by simp
next
  case (Cons x segs)
  show ?case
  proof (cases segs)
    case Nil
    with Cons.prems show ?thesis by (simp add: split_on_no_sep)
  next
    case (Cons y ys)
    then have "join_str [sep] (x # segs) = x @ sep # join_str [sep] segs" by simp
    then have "split_on sep (join_str [sep] (x # segs))
        = split_on sep x @ split_on sep (join_str [sep] segs)"
      by (simp only: split_on_append)
    with Cons.IH Cons.prems Cons show ?thesis by (simp add: split_on_no_sep)
  qed
qed

lemma instance_step_no_hyphen:
  "CHR ''-'' \<notin> set part \<Longrightarrow> instance_step variables part = variables"
  by (simp add: instance_step_def)

text \<open>
  Claim C3, as the code has it: the name \<open>graph-1D-grid-pbc_size-4\<close> gives \<open>graph\<close> the
  value \<open>1D-grid-pbc\<close> and \<open>size\<close> the value \<open>4\<close>. In general the segments between the
  underscores are taken from left to right; a segment with a hyphen is split at its first
  hyphen, the value is all of the segment after that hyphen, later hyphens included, and
  it replaces an earlier value of the same variable; a segment without a hyphen changes
  nothing.
\<close>

theorem parse_instance_variables_first_hyphen:
  "parse_instance_variables ''graph-1D-grid-pbc_size-4''
     = [(''graph'', ''1D-grid-pbc''), (''size'', ''4'')]
   \<and> (\<forall>segs. segs \<noteq> [] \<and> (\<forall>s \<in> set segs. CHR ''_'' \<notin> set s) \<longrightarrow>
        parse_instance_variables (join_str ''_'' segs) = foldl instance_step [] segs)
   \<and> (\<forall>variables var val. CHR ''-'' \<notin> set var \<longrightarrow>
        instance_step variables (var @ ''-'' @ val) = AList.update var val variables)
   \<and> (\<forall>variables part. CHR ''-'' \<notin> set part \<longrightarrow> instance_step variables part = variables)"
proof (intro conjI allI impI)
  show "parse_instance_variables ''graph-1D-grid-pbc_size-4''
     = [(''graph'', ''1D-grid-pbc''), (''size'', ''4'')]"
    by (simp add: parse_instance_variables_def instance_step_def slice_to_def slice_from_def
        Let_def)
next
  fix segs :: "string list"
  assume "segs \<noteq> [] \<and> (\<forall>s \<in> set segs. CHR ''_'' \<notin> set s)"
  then have "split_on CHR ''_'' (join_str ''_'' segs) = segs"
    by (intro split_on_join) simp_all
  then show "parse_instance_variables (join_str ''_'' segs) = foldl instance_step [] segs"
    by (simp add: parse_instance_variables_def)
next
  fix variables :: "(string \<times> string) list" and var val :: string
  assume "CHR ''-'' \<notin> set var"
  then show "instance_step variables (var @ ''-'' @ val) = AList.update var val variables"
    using instance_step_first_hyphen [of var variables val] by simp
next
  fix variables :: "(string \<times> string) list" and part :: string
  assume "CHR ''-'' \<notin> set part"
  then show "instance_step variables part = variables"
    by (rule instance_step_no_hyphen)
qed

theorem parse_instance_variables_first_hyphen_witness:
  "parse_instance_variables (join_str ''_'' [''tfim'', ''graph-1D-grid-pbc'', ''h-0.5''])
     = [(''graph'', ''1D-grid-pbc''), (''h'', ''0.5'')]"
proof -
  note main = parse_instance_variables_first_hyphen
  have segs: "[''tfim'', ''graph-1D-grid-pbc'', ''h-0.5''] \<noteq> []
      \<and> (\<forall>s \<in> set [''tfim'', ''graph-1D-grid-pbc'', ''h-0.5'']. CHR ''_'' \<notin> set s)"
    by simp
  have 1: "instance_step [] ''tfim'' = []"
    using main [THEN conjunct2, THEN conjunct2, THEN conjunct2, rule_format, of "''tfim''" "[]"]
    by simp
  have 2: "instance_step [] (''graph'' @ ''-'' @ ''1D-grid-pbc'')
      = AList.update ''graph'' ''1D-grid-pbc'' []"
    using main [THEN conjunct2, THEN conjunct2, THEN conjunct1, rule_format,
        of "''graph''" "[]" "''1D-grid-pbc''"]
    by simp
  have 3: "instance_step [(''graph'', ''1D-grid-pbc'')] (''h'' @ ''-'' @ ''0.5'')
      = AList.update ''h'' ''0.5'' [(''graph'', ''1D-grid-pbc'')]"
    using main [THEN conjunct2, THEN conjunct2, THEN conjunct1, rule_format,
        of "''h''" "[(''graph'', ''1D-grid-pbc'')]" "''0.5''"]
    by simp
  have "parse_instance_variables (join_str ''_'' [''tfim'', ''graph-1D-grid-pbc'', ''h-0.5''])
      = foldl instance_step [] [''tfim'', ''graph-1D-grid-pbc'', ''h-0.5'']"
    using main [THEN conjunct2, THEN conjunct1, rule_format, OF segs] .
  then show ?thesis using 1 2 3 by simp
qed

text \<open>
  Claim C3 as the specification states it fails: the value of \<open>graph\<close> is not cut at the
  second hyphen, so the result is not the map of \<open>graph\<close> to \<open>1D\<close> and \<open>size\<close> to \<open>4\<close>.
\<close>

theorem parse_instance_variables_counterexample:
  "map_of (parse_instance_variables ''graph-1D-grid-pbc_size-4'')
     \<noteq> map_of [(''graph'', ''1D''), (''size'', ''4'')]"
proof
  assume "map_of (parse_instance_variables ''graph-1D-grid-pbc_size-4'')
    = map_of [(''graph'', ''1D''), (''size'', ''4'')]"
  then have "map_of (parse_instance_variables ''graph-1D-grid-pbc_size-4'') ''graph''
    = map_of [(''graph'', ''1D''), (''size'', ''4'')] ''graph''"
    by (rule arg_cong [where f = "\<lambda>m. m ''graph''"])
  then show False
    by (simp add: parse_instance_variables_def instance_step_def slice_to_def slice_from_def
        Let_def)
qed

subsection \<open>The matchers\<close>

lemma re_cat_Nil [simp]: "re_cat [] = re_eps"
  by (simp add: re_cat_def)

lemma re_cat_Cons [simp]: "re_cat (m # ms) = re_seq m (re_cat ms)"
  by (simp add: re_cat_def)

lemma re_seq_eps [simp]: "re_seq m re_eps = m"
  by (rule ext) (simp add: re_seq_def re_eps_def case_prod_unfold)

lemma re_chr_Nil [simp]: "re_chr P [] = []"
  by (simp add: re_chr_def)

lemma re_chr_Cons [simp]: "re_chr P (c # r) = (if P c then [([], r)] else [])"
  by (simp add: re_chr_def)

lemma re_group_Cons:
  "m s = (g, r) # xs \<Longrightarrow>
   re_group m s = (take (length s - length r) s # g, r)
      # map (\<lambda>(g, r). (take (length s - length r) s # g, r)) xs"
  by (simp add: re_group_def)

lemma drop_takeWhile_length: "drop (length (takeWhile P s)) s = dropWhile P s"
  by (simp add: dropWhile_eq_drop)

lemma re_plus_Nil: "takeWhile P s = [] \<Longrightarrow> re_plus P s = []"
  by (simp add: re_plus_def)

lemma re_plus_Cons:
  assumes "takeWhile P s \<noteq> []"
  shows "re_plus P s = ([], dropWhile P s)
     # map (\<lambda>k. ([], drop k s)) (rev [1..<length (takeWhile P s)])"
proof -
  have "1 \<le> length (takeWhile P s)"
    using assms by (cases "takeWhile P s") simp_all
  then have "[1..<Suc (length (takeWhile P s))] = [1..<length (takeWhile P s)] @ [length (takeWhile P s)]"
    by simp
  then show ?thesis
    by (simp add: re_plus_def drop_takeWhile_length)
qed

lemma take_length_dropWhile: "take (length s - length (dropWhile P s)) s = takeWhile P s"
proof -
  have "length s - length (dropWhile P s) = length (takeWhile P s)"
    by (induction s) (auto simp: Suc_diff_le length_dropWhile_le)
  then show ?thesis using takeWhile_eq_take [of P s] by simp
qed

lemma re_match_Nil: "m s = [] \<Longrightarrow> re_match m s = None"
  by (simp add: re_match_def)

subsection \<open>Operator tokens\<close>

lemma match_operator_prefix: "match_operator tok = prefix_operator tok"
proof (cases tok)
  case Nil
  then show ?thesis
    by (simp add: match_operator_def prefix_operator_def operator_re_def re_match_def
        re_seq_def re_group_def)
next
  case (Cons c r)
  show ?thesis
  proof (cases "c \<in> set ''XYZ'' \<and> takeWhile is_digit r \<noteq> []")
    case True
    then have 1: "re_group (re_chr (\<lambda>c. c \<in> set ''XYZ'')) (c # r) = [([[c]], r)]"
      by (simp add: re_group_def)
    from True obtain xs where 2: "re_group (re_plus is_digit) r = ([takeWhile is_digit r], dropWhile is_digit r) # xs"
      by (simp add: re_plus_Cons re_group_def take_length_dropWhile)
    have "operator_re (c # r) = ([[c], takeWhile is_digit r], dropWhile is_digit r)
        # map (\<lambda>(g2, r2). ([c] # g2, r2)) xs"
      using 1 2 by (simp add: operator_re_def re_seq_def)
    then show ?thesis using True Cons
      by (simp add: match_operator_def prefix_operator_def re_match_def)
  next
    case False
    then have "operator_re (c # r) = []"
      by (auto simp: operator_re_def re_seq_def re_group_def re_plus_Nil)
    then show ?thesis using False Cons
      by (simp add: match_operator_def prefix_operator_def re_match_def)
  qed
qed


lemma operator_step_prefix:
  "operator_step d tok =
     (case prefix_operator tok of None \<Rightarrow> d | Some (L, i) \<Rightarrow> AList.update i L d)"
  by (simp add: operator_step_def match_operator_prefix split: option.splits)











subsection \<open>Coefficients\<close>

lemma in_re_seq:
  "(g, r) \<in> set (re_seq m1 m2 s) \<longleftrightarrow>
     (\<exists>g1 r1 g2. (g1, r1) \<in> set (m1 s) \<and> (g2, r) \<in> set (m2 r1) \<and> g = g1 @ g2)"
  by (force simp: re_seq_def)

lemma in_re_group:
  "(g, r) \<in> set (re_group m s) \<longleftrightarrow>
     (\<exists>g'. (g', r) \<in> set (m s) \<and> g = take (length s - length r) s # g')"
  by (force simp: re_group_def)

lemma in_re_chr: "(g, r) \<in> set (re_chr P s) \<longleftrightarrow> (\<exists>c. s = c # r \<and> P c \<and> g = [])"
  by (cases s) auto

lemma set_upt_Suc_le: "set [i..<Suc n] = {k. i \<le> k \<and> k \<le> n}"
  by auto

lemma in_re_star:
  "(g, r) \<in> set (re_star P s) \<longleftrightarrow> (\<exists>k \<le> length (takeWhile P s). r = drop k s \<and> g = [])"
  unfolding re_star_def set_map set_rev set_upt_Suc_le by auto

lemma in_re_plus:
  "(g, r) \<in> set (re_plus P s) \<longleftrightarrow>
     (\<exists>k. 1 \<le> k \<and> k \<le> length (takeWhile P s) \<and> r = drop k s \<and> g = [])"
  unfolding re_plus_def set_map set_rev set_upt_Suc_le by auto

lemma in_re_lazy_star:
  "(g, r) \<in> set (re_lazy_star P s) \<longleftrightarrow>
     (\<exists>k \<le> length (takeWhile P s). r = drop k s \<and> g = [])"
  unfolding re_lazy_star_def set_map set_upt_Suc_le by auto

lemma in_re_eps: "(g, r) \<in> set (re_eps s) \<longleftrightarrow> g = [] \<and> r = s"
  by (auto simp: re_eps_def)

lemma term_re_groups: "(g, r) \<in> set (term_re s) \<Longrightarrow> \<exists>c ops. g = [c, ops]"
  by (auto simp: term_re_def in_re_seq in_re_group in_re_chr in_re_star in_re_plus
      in_re_lazy_star in_re_eps)

lemma re_match_in: "re_match m s = Some x \<Longrightarrow> x \<in> set (m s)"
  by (auto simp: re_match_def split: list.splits)

lemma re_findall_in:
  "g \<in> set (re_findall m s) \<Longrightarrow> \<exists>s' r. (g, r) \<in> set (m s')"
proof (induction m s rule: re_findall.induct)
  case (1 m s)
  show ?case
  proof (cases "re_match m s")
    case None
    with "1.prems" "1.IH"(1) show ?thesis
      by (cases s) auto
  next
    case (Some x)
    obtain g' r where x: "x = (g', r)" by (cases x)
    have in_m: "(g', r) \<in> set (m s)"
      using Some x by (auto dest: re_match_in)
    show ?thesis
    proof (cases "g = g'")
      case True
      with in_m show ?thesis by blast
    next
      case False
      show ?thesis
      proof (cases "length r < length s")
        case True
        with "1.prems" Some x False have "g \<in> set (re_findall m r)" by simp
        with "1.IH"(2) Some x True show ?thesis by blast
      next
        case nl: False
        show ?thesis
        proof (cases s)
          case Nil
          with "1.prems" Some x False nl show ?thesis by simp
        next
          case (Cons c cs)
          with "1.prems" Some x False nl have "g \<in> set (re_findall m cs)" by simp
          with "1.IH"(3) Some x nl Cons show ?thesis by blast
        qed
      qed
    qed
  qed
qed

lemma findall_term_groups:
  "g \<in> set (re_findall term_re data) \<Longrightarrow> \<exists>c ops. g = [c, ops]"
  by (blast dest: re_findall_in term_re_groups)

lemma re_match_operator_re:
  "re_match operator_re tok =
     (case tok of
        [] \<Rightarrow> None
      | c # r \<Rightarrow>
          if c \<in> set ''XYZ'' \<and> takeWhile is_digit r \<noteq> []
          then Some ([[c], takeWhile is_digit r], dropWhile is_digit r)
          else None)"
proof (cases tok)
  case Nil
  then show ?thesis
    by (simp add: operator_re_def re_match_def re_seq_def re_group_def)
next
  case (Cons c r)
  show ?thesis
  proof (cases "c \<in> set ''XYZ'' \<and> takeWhile is_digit r \<noteq> []")
    case True
    then have 1: "re_group (re_chr (\<lambda>c. c \<in> set ''XYZ'')) (c # r) = [([[c]], r)]"
      by (simp add: re_group_def)
    from True obtain xs where 2: "re_group (re_plus is_digit) r
        = ([takeWhile is_digit r], dropWhile is_digit r) # xs"
      by (simp add: re_plus_Cons re_group_def take_length_dropWhile)
    have "operator_re (c # r) = ([[c], takeWhile is_digit r], dropWhile is_digit r)
        # map (\<lambda>(g2, r2). ([c] # g2, r2)) xs"
      using 1 2 by (simp add: operator_re_def re_seq_def)
    then show ?thesis using True Cons
      by (simp add: re_match_def)
  next
    case False
    then have "operator_re (c # r) = []"
      by (auto simp: operator_re_def re_seq_def re_group_def re_plus_Nil)
    then show ?thesis using False Cons
      by (simp add: re_match_def)
  qed
qed

lemma try_operator_step_eq:
  "try_operator_step d tok =
     (if 4300 < length (index_digits tok) then Inl ValueError else Inr (operator_step d tok))"
proof (cases tok)
  case Nil
  then show ?thesis
    by (simp add: try_operator_step_def re_match_operator_re index_digits_def
        operator_step_prefix prefix_operator_def)
next
  case (Cons c r)
  show ?thesis
  proof (cases "c \<in> set ''XYZ'' \<and> takeWhile is_digit r \<noteq> []")
    case True
    with Cons show ?thesis
      by (simp add: try_operator_step_def re_match_operator_re index_digits_def
          operator_step_prefix prefix_operator_def py_int_def)
  next
    case False
    then have "length (index_digits tok) = 0"
      using Cons by (auto simp: index_digits_def)
    with False Cons show ?thesis
      by (auto simp: try_operator_step_def re_match_operator_re
          operator_step_prefix prefix_operator_def)
  qed
qed

lemma try_operators_eq:
  "try_operators d toks =
     (if \<exists>tok \<in> set toks. 4300 < length (index_digits tok) then Inl ValueError
      else Inr (foldl operator_step d toks))"
  by (induction toks arbitrary: d) (simp_all add: try_operator_step_eq)

lemma parse_terms_error:
  "\<forall>t \<in> set ts. \<exists>c ops. t = [c, ops] \<Longrightarrow>
   (\<exists>e. parse_terms pc ts acc = Inl e) \<longleftrightarrow>
     (\<exists>c ops. [c, ops] \<in> set ts
        \<and> (pc (strip c) = None \<or> (\<exists>tok \<in> set (split_ws ops). 4300 < length (index_digits tok))))"
proof (induction ts arbitrary: acc)
  case Nil
  show ?case by simp
next
  case (Cons t ts)
  then obtain c ops where t: "t = [c, ops]" by auto
  show ?case
  proof (cases "pc (strip c)")
    case None
    then show ?thesis using t by auto
  next
    case (Some z)
    show ?thesis
    proof (cases "\<exists>tok \<in> set (split_ws ops). 4300 < length (index_digits tok)")
      case True
      then have "parse_terms pc (t # ts) acc = Inl ValueError"
        using t Some by (simp add: try_operators_eq)
      moreover have "[c, ops] \<in> set (t # ts)" using t by simp
      ultimately show ?thesis using True by blast
    next
      case False
      have "(\<exists>e. parse_terms pc ts (acc @ [(parse_operators ops, z)]) = Inl e) \<longleftrightarrow>
          (\<exists>c ops. [c, ops] \<in> set ts
            \<and> (pc (strip c) = None
                \<or> (\<exists>tok \<in> set (split_ws ops). 4300 < length (index_digits tok))))"
        using Cons.prems by (intro Cons.IH) simp
      moreover have "parse_terms pc (t # ts) acc
          = parse_terms pc ts (acc @ [(parse_operators ops, z)])"
        using t Some False by (simp add: try_operators_eq parse_operators_def)
      ultimately show ?thesis using t Some False by auto
    qed
  qed
qed

lemma parse_terms_result:
  "parse_terms pc ts acc = Inr terms \<Longrightarrow>
   \<exists>new. terms = acc @ new \<and>
     list_all2 (\<lambda>g (d, z). \<exists>c ops. g = [c, ops] \<and> pc (strip c) = Some z
        \<and> d = parse_operators ops) ts new"
proof (induction ts arbitrary: acc)
  case Nil
  then show ?case by simp
next
  case (Cons t ts)
  from Cons.prems obtain c ops z d where t: "t = [c, ops]" and z: "pc (strip c) = Some z"
    and d: "try_operators [] (split_ws ops) = Inr d"
    and rest: "parse_terms pc ts (acc @ [(d, z)]) = Inr terms"
    by (auto split: list.splits option.splits sum.splits)
  from d have "d = parse_operators ops"
    by (auto simp: try_operators_eq parse_operators_def split: if_splits)
  with rest have rest': "parse_terms pc ts (acc @ [(parse_operators ops, z)]) = Inr terms"
    by simp
  from Cons.IH [OF rest'] obtain new where
    "terms = (acc @ [(parse_operators ops, z)]) @ new"
    "list_all2 (\<lambda>g (d, z). \<exists>c ops. g = [c, ops] \<and> pc (strip c) = Some z
        \<and> d = parse_operators ops) ts new"
    by blast
  then show ?case using t z
    by (intro exI [of _ "(parse_operators ops, z) # new"]) simp
qed

lemma parse_terms_ValueError:
  "parse_terms pc ts acc = Inl e \<Longrightarrow> e = ValueError"
proof (induction ts arbitrary: acc)
  case Nil
  then show ?case by simp
next
  case (Cons t ts)
  then show ?case
    by (auto simp: try_operators_eq split: list.splits option.splits if_splits)
qed

lemma decode_data_error:
  "decode_data py_decode data = Inl e \<Longrightarrow> e = UnicodeDecodeError"
  by (auto simp: decode_data_def split: pydata.splits option.splits)

text \<open>
  Claim C6, as the code has it: the parser raises in exactly three cases. It raises
  \<open>UnicodeDecodeError\<close> if and only if the input is a byte string that does not decode. It
  raises \<open>ValueError\<close> if and only if the input is or decodes to a text in which some term
  that the pattern matched has a coefficient that does not parse as a complex number
  (\<open>py_complex\<close> gives \<open>None\<close> on the stripped coefficient) or has an operator token whose
  index has more than 4300 digits. It raises no other error. An error reaches the caller;
  and when the parser returns, every matched term is in the result, in order, with the
  value its coefficient parsed to.
\<close>

theorem parser_raises_iff:
  "(parse_hamiltonian_to_sparsepauliop py_decode py_complex data = Inl UnicodeDecodeError \<longleftrightarrow>
      decode_data py_decode data = Inl UnicodeDecodeError)
   \<and> (parse_hamiltonian_to_sparsepauliop py_decode py_complex data = Inl ValueError \<longleftrightarrow>
        (\<exists>text c ops. decode_data py_decode data = Inr text
            \<and> [c, ops] \<in> set (re_findall term_re text)
            \<and> (py_complex (strip c) = None
                \<or> (\<exists>tok \<in> set (split_ws ops). 4300 < length (index_digits tok)))))
   \<and> (\<forall>e. parse_hamiltonian_to_sparsepauliop py_decode py_complex data = Inl e \<longrightarrow>
         e = UnicodeDecodeError \<or> e = ValueError)
   \<and> (\<forall>terms. parse_hamiltonian_to_sparsepauliop py_decode py_complex data = Inr terms \<longrightarrow>
         (\<exists>text. decode_data py_decode data = Inr text
            \<and> list_all2 (\<lambda>g (d, z). \<exists>c ops. g = [c, ops] \<and> py_complex (strip c) = Some z
                 \<and> d = parse_operators ops) (re_findall term_re text) terms))"
proof (cases "decode_data py_decode data")
  case (Inl e)
  then have "e = UnicodeDecodeError"
    by (rule decode_data_error)
  with Inl show ?thesis
    by (simp add: parse_hamiltonian_to_sparsepauliop_def)
next
  case (Inr s)
  let ?bad = "\<exists>c ops. [c, ops] \<in> set (re_findall term_re s)
      \<and> (py_complex (strip c) = None
          \<or> (\<exists>tok \<in> set (split_ws ops). 4300 < length (index_digits tok)))"
  have groups: "\<forall>t \<in> set (re_findall term_re s). \<exists>c ops. t = [c, ops]"
    by (blast dest: findall_term_groups)
  have run: "parse_hamiltonian_to_sparsepauliop py_decode py_complex data
      = parse_terms py_complex (re_findall term_re s) []"
    by (simp add: parse_hamiltonian_to_sparsepauliop_def Inr)
  have kind: "e = ValueError"
    if "parse_hamiltonian_to_sparsepauliop py_decode py_complex data = Inl e" for e
    using that unfolding run by (rule parse_terms_ValueError)
  have "(\<exists>e. parse_hamiltonian_to_sparsepauliop py_decode py_complex data = Inl e) \<longleftrightarrow> ?bad"
    unfolding run by (rule parse_terms_error [OF groups])
  with kind have bad: "parse_hamiltonian_to_sparsepauliop py_decode py_complex data = Inl ValueError
      \<longleftrightarrow> ?bad"
    by blast
  show ?thesis
  proof (intro conjI allI impI)
    show "parse_hamiltonian_to_sparsepauliop py_decode py_complex data = Inl UnicodeDecodeError
        \<longleftrightarrow> decode_data py_decode data = Inl UnicodeDecodeError"
      using kind Inr by auto
  next
    show "parse_hamiltonian_to_sparsepauliop py_decode py_complex data = Inl ValueError \<longleftrightarrow>
        (\<exists>text c ops. decode_data py_decode data = Inr text
            \<and> [c, ops] \<in> set (re_findall term_re text)
            \<and> (py_complex (strip c) = None
                \<or> (\<exists>tok \<in> set (split_ws ops). 4300 < length (index_digits tok))))"
      unfolding bad by (simp add: Inr)
  next
    fix e
    assume "parse_hamiltonian_to_sparsepauliop py_decode py_complex data = Inl e"
    then show "e = UnicodeDecodeError \<or> e = ValueError"
      using kind by simp
  next
    fix terms
    assume "parse_hamiltonian_to_sparsepauliop py_decode py_complex data = Inr terms"
    then have "parse_terms py_complex (re_findall term_re s) [] = Inr terms"
      by (simp only: run)
    from parse_terms_result [OF this]
    have "list_all2 (\<lambda>g (d, z). \<exists>c ops. g = [c, ops] \<and> py_complex (strip c) = Some z
                 \<and> d = parse_operators ops) (re_findall term_re s) terms"
      by auto
    with Inr show "\<exists>text. decode_data py_decode data = Inr text
            \<and> list_all2 (\<lambda>g (d, z). \<exists>c ops. g = [c, ops] \<and> py_complex (strip c) = Some z
                 \<and> d = parse_operators ops) (re_findall term_re text) terms"
      by blast
  qed
qed

theorem parser_raises_iff_witness:
  "parse_hamiltonian_to_sparsepauliop Some
      (\<lambda>s. if s = ''2.0'' then Some (2::complex) else None)
      (Str ''(2.0) [X0] (abc) [Y1]'') = Inl ValueError
   \<and> parse_hamiltonian_to_sparsepauliop (\<lambda>b. None)
      (\<lambda>s. if s = ''2.0'' then Some (2::complex) else None)
      (Bytes ''(2.0) [X0]'') = Inl UnicodeDecodeError
   \<and> list_all2 (\<lambda>g (d, z). \<exists>c ops. g = [c, ops]
          \<and> (if strip c = ''2.0'' then Some (2::complex) else None) = Some z
          \<and> d = parse_operators ops)
        (re_findall term_re ''(2.0) [X0]'') [([(0, ''X'')], 2)]"
proof (intro conjI)
  let ?pc = "\<lambda>s. if s = ''2.0'' then Some (2::complex) else None"
  have "re_findall term_re ''(2.0) [X0] (abc) [Y1]'' = [[''2.0'', ''X0''], [''abc'', ''Y1'']]"
    by code_simp
  then have "[''abc'', ''Y1''] \<in> set (re_findall term_re ''(2.0) [X0] (abc) [Y1]'')"
    by simp
  moreover have "?pc (strip ''abc'') = None"
    by (simp add: strip_def is_space_def)
  moreover have "decode_data Some (Str ''(2.0) [X0] (abc) [Y1]'') = Inr ''(2.0) [X0] (abc) [Y1]''"
    by (simp add: decode_data_def)
  ultimately show "parse_hamiltonian_to_sparsepauliop Some ?pc (Str ''(2.0) [X0] (abc) [Y1]'')
      = Inl ValueError"
    using parser_raises_iff [of Some ?pc "Str ''(2.0) [X0] (abc) [Y1]''",
        THEN conjunct2, THEN conjunct1]
    by blast
next
  let ?pc = "\<lambda>s. if s = ''2.0'' then Some (2::complex) else None"
  have "decode_data (\<lambda>b. None) (Bytes ''(2.0) [X0]'') = Inl UnicodeDecodeError"
    by (simp add: decode_data_def)
  then show "parse_hamiltonian_to_sparsepauliop (\<lambda>b. None) ?pc (Bytes ''(2.0) [X0]'')
      = Inl UnicodeDecodeError"
    using parser_raises_iff [of "\<lambda>b. None" ?pc "Bytes ''(2.0) [X0]''", THEN conjunct1]
    by blast
next
  let ?pc = "\<lambda>s. if s = ''2.0'' then Some (2::complex) else None"
  have fa: "re_findall term_re ''(2.0) [X0]'' = [[''2.0'', ''X0'']]"
    by code_simp
  have dec: "decode_data Some (Str ''(2.0) [X0]'') = Inr ''(2.0) [X0]''"
    by (simp add: decode_data_def)
  have "parse_hamiltonian_to_sparsepauliop Some ?pc (Str ''(2.0) [X0]'') = Inr [([(0, ''X'')], 2)]"
    unfolding parse_hamiltonian_to_sparsepauliop_def dec sum.case fa
    by (simp add: strip_def is_space_def try_operators_eq index_digits_def
        operator_step_prefix prefix_operator_def is_digit_def int_of_digits_def digit_val_def)
  then have "\<exists>text. decode_data Some (Str ''(2.0) [X0]'') = Inr text
      \<and> list_all2 (\<lambda>g (d, z). \<exists>c ops. g = [c, ops] \<and> ?pc (strip c) = Some z
          \<and> d = parse_operators ops) (re_findall term_re text) [([(0, ''X'')], 2)]"
    using parser_raises_iff [of Some ?pc "Str ''(2.0) [X0]''",
        THEN conjunct2, THEN conjunct2, THEN conjunct2]
    by blast
  then show "list_all2 (\<lambda>g (d, z). \<exists>c ops. g = [c, ops]
          \<and> (if strip c = ''2.0'' then Some (2::complex) else None) = Some z
          \<and> d = parse_operators ops)
        (re_findall term_re ''(2.0) [X0]'') [([(0, ''X'')], 2)]"
    unfolding dec by blast
qed

subsection \<open>The normalizer\<close>

lemma split_on_parts: "p \<in> set (split_on sep s) \<Longrightarrow> set p \<subseteq> set s"
proof (induction s arbitrary: p)
  case Nil
  then show ?case by simp
next
  case (Cons c s)
  obtain q qs where qs: "split_on sep s = q # qs"
    using split_on_not_Nil [of sep s] by (cases "split_on sep s") auto
  show ?case
  proof (cases "c = sep")
    case True
    with Cons show ?thesis by auto
  next
    case False
    with Cons.prems qs have "p = c # q \<or> p \<in> set qs" by simp
    then show ?thesis
    proof
      assume "p = c # q"
      moreover have "set q \<subseteq> set s" using Cons.IH [of q] qs by simp
      ultimately show ?thesis by auto
    next
      assume "p \<in> set qs"
      then have "set p \<subseteq> set s" using Cons.IH [of p] qs by simp
      then show ?thesis by auto
    qed
  qed
qed

lemma set_strip: "set (strip s) \<subseteq> set s"
  unfolding strip_def by (auto dest!: set_dropWhileD)

lemma loose_term_re_no_bracket:
  assumes "CHR ''['' \<notin> set s"
  shows "loose_term_re s = []"
proof (rule ccontr)
  assume "loose_term_re s \<noteq> []"
  then obtain g r where "(g, r) \<in> set (loose_term_re s)"
    by (cases "loose_term_re s") auto
  then obtain k j t where "drop j (drop k s) = CHR ''['' # t"
    by (auto simp: loose_term_re_def in_re_seq in_re_group in_re_chr in_re_star in_re_plus)
  then have "CHR ''['' \<in> set (drop j (drop k s))" by simp
  then have "CHR ''['' \<in> set s"
    by (meson in_set_dropD)
  with assms show False by simp
qed

lemma normalize_term_no_bracket:
  assumes "CHR ''['' \<notin> set p"
  shows "normalize_term acc p = acc"
proof -
  have "CHR ''['' \<notin> set (strip p)"
    using assms set_strip [of p] by auto
  then have "re_match loose_term_re (strip p) = None"
    by (simp add: loose_term_re_no_bracket re_match_Nil)
  then show ?thesis by (simp add: normalize_term_def Let_def)
qed

lemma foldl_normalize_term_no_bracket:
  "\<forall>p \<in> set ps. CHR ''['' \<notin> set p \<Longrightarrow> foldl normalize_term acc ps = acc"
  by (induction ps arbitrary: acc) (simp_all add: normalize_term_no_bracket)

subsection \<open>Matches of the loose term pattern\<close>

text \<open>
  Two facts about \<^verbatim>\<open>(\S+)\s*\[(.*?)\]\<close> at the start of a text. A text that is a
  coefficient without whitespace, whitespace, and a bracketed operator list without a line
  feed matches, with the coefficient and the operator list as its groups
  (\<open>loose_term_match\<close>). And every match has this shape, but that the whitespace may be
  missing (\<open>loose_term_match_shape\<close>).
\<close>

lemma re_seq_first:
  assumes "m1 s = pre @ (g1, r1) # xs"
    and "\<forall>(g, r) \<in> set pre. m2 r = []"
    and "re_match m2 r1 = Some (g2, r2)"
  shows "re_match (re_seq m1 m2) s = Some (g1 @ g2, r2)"
proof -
  let ?F = "\<lambda>(g1, r1). map (\<lambda>(g2, r2). (g1 @ g2, r2)) (m2 r1)"
  have "concat (map ?F pre) = []"
    using assms(2) by (induction pre) auto
  moreover obtain ys where "m2 r1 = (g2, r2) # ys"
    using assms(3) by (auto simp: re_match_def split: list.splits)
  ultimately have "re_seq m1 m2 s = (g1 @ g2, r2) # map (\<lambda>(g, r). (g1 @ g, r)) ys
      @ concat (map ?F xs)"
    by (simp add: re_seq_def assms(1))
  then show ?thesis by (simp add: re_match_def)
qed

lemma re_star_Cons:
  "re_star P s = ([], dropWhile P s) # map (\<lambda>k. ([], drop k s)) (rev [0..<length (takeWhile P s)])"
  by (simp add: re_star_def drop_takeWhile_length)

lemma takeWhile_run:
  "\<forall>c \<in> set a. P c \<Longrightarrow> t = [] \<or> \<not> P (hd t) \<Longrightarrow> takeWhile P (a @ t) = a"
  by (cases t) simp_all

lemma dropWhile_run:
  "\<forall>c \<in> set a. P c \<Longrightarrow> t = [] \<or> \<not> P (hd t) \<Longrightarrow> dropWhile P (a @ t) = t"
  by (cases t) simp_all

lemma re_group_lazy_star:
  "re_group (re_lazy_star P) s
     = map (\<lambda>k. ([take k s], drop k s)) [0..<Suc (length (takeWhile P s))]"
proof -
  have "length (takeWhile P s) \<le> length s" by (rule length_takeWhile_le)
  then have "length s - length (drop k s) = k" if "k \<in> set [0..<Suc (length (takeWhile P s))]" for k
    using that by auto
  then show ?thesis
    unfolding re_group_def re_lazy_star_def map_map
    by (intro map_cong) simp_all
qed

lemma upt_split_at: "k \<le> n \<Longrightarrow> [0..<Suc n] = [0..<k] @ k # [Suc k..<Suc n]"
proof -
  assume "k \<le> n"
  then have "[0..<Suc n] = [0..<k] @ [k..<Suc n]"
    using upt_add_eq_append [of 0 k "Suc n - k"] by simp
  moreover have "[k..<Suc n] = k # [Suc k..<Suc n]"
    using \<open>k \<le> n\<close> by (simp add: upt_conv_Cons)
  ultimately show ?thesis by simp
qed

lemma re_lazy_group_split:
  assumes "\<forall>c \<in> set a. P c"
  shows "\<exists>xs. re_group (re_lazy_star P) (a @ t)
     = map (\<lambda>k. ([take k (a @ t)], drop k (a @ t))) [0..<length a] @ ([a], t) # xs"
proof -
  have "length a \<le> length (takeWhile P (a @ t))"
    using assms by simp
  from upt_split_at [OF this] show ?thesis
    by (simp add: re_group_lazy_star)
qed

lemma lazy_until_first:
  assumes "\<forall>c \<in> set a. P c \<and> \<not> Q c" and "Q c"
  shows "re_match (re_seq (re_group (re_lazy_star P)) (re_chr Q)) (a @ c # rest)
     = Some ([a], rest)"
proof -
  obtain xs where split: "re_group (re_lazy_star P) (a @ c # rest)
     = map (\<lambda>k. ([take k (a @ c # rest)], drop k (a @ c # rest))) [0..<length a]
       @ ([a], c # rest) # xs"
    using re_lazy_group_split [of a P "c # rest"] assms(1) by auto
  have fail: "\<forall>(g, r) \<in> set (map (\<lambda>k. ([take k (a @ c # rest)], drop k (a @ c # rest)))
      [0..<length a]). re_chr Q r = []"
  proof -
    have "re_chr Q (drop k (a @ c # rest)) = []" if "k < length a" for k
    proof -
      have "drop k (a @ c # rest) = a ! k # drop (Suc k) a @ c # rest"
        using that by (simp add: Cons_nth_drop_Suc)
      moreover have "\<not> Q (a ! k)" using assms(1) that by simp
      ultimately show ?thesis by simp
    qed
    then show ?thesis by auto
  qed
  have "re_match (re_chr Q) (c # rest) = Some ([], rest)"
    using assms(2) by (simp add: re_match_def)
  with split fail
  have "re_match (re_seq (re_group (re_lazy_star P)) (re_chr Q)) (a @ c # rest)
      = Some ([a] @ [], rest)"
    by (rule re_seq_first [where ?m1.0 = "re_group (re_lazy_star P)" and ?m2.0 = "re_chr Q"])
  then show ?thesis by simp
qed

lemma loose_term_match:
  assumes "coeff \<noteq> []" and "\<forall>c \<in> set coeff. \<not> is_space c"
    and "ws \<noteq> []" and "\<forall>c \<in> set ws. is_space c"
    and "\<forall>c \<in> set ops. c \<noteq> CHR 0x0A \<and> c \<noteq> CHR '']''"
  shows "re_match loose_term_re (coeff @ ws @ ''['' @ ops @ '']'' @ rest)
     = Some ([coeff, ops], rest)"
proof -
  let ?t4 = "ops @ CHR '']'' # rest"
  let ?t2 = "ws @ CHR ''['' # ?t4"
  let ?m4 = "re_seq (re_group (re_lazy_star (\<lambda>c. c \<noteq> CHR 0x0A))) (re_chr (\<lambda>c. c = CHR '']''))"
  let ?m3 = "re_seq (re_chr (\<lambda>c. c = CHR ''['')) ?m4"
  let ?m2 = "re_seq (re_star is_space) ?m3"
  have 4: "re_match ?m4 ?t4 = Some ([ops], rest)"
    using assms(5) by (intro lazy_until_first) auto
  have 3: "re_match ?m3 (CHR ''['' # ?t4) = Some ([ops], rest)"
    using 4 by (simp add: re_seq_def re_match_def)
  have "\<not> is_space CHR ''[''" by (simp add: is_space_def)
  then have "dropWhile is_space ?t2 = CHR ''['' # ?t4"
    using assms(4) by (intro dropWhile_run) simp_all
  then obtain xs where "re_star is_space ?t2 = [] @ ([], CHR ''['' # ?t4) # xs"
    by (simp add: re_star_Cons)
  from re_seq_first [where ?m1.0 = "re_star is_space" and ?m2.0 = ?m3, OF this _ 3]
  have 2: "re_match ?m2 ?t2 = Some ([ops], rest)"
    by simp
  obtain w ws' where ws: "ws = w # ws'" using assms(3) by (cases ws) auto
  then have w: "is_space w" using assms(4) by simp
  have tw: "takeWhile (\<lambda>c. \<not> is_space c) (coeff @ ?t2) = coeff"
    using assms(2) w ws by (intro takeWhile_run) simp_all
  have dw: "dropWhile (\<lambda>c. \<not> is_space c) (coeff @ ?t2) = ?t2"
    using assms(2) w ws by (intro dropWhile_run) simp_all
  have "takeWhile (\<lambda>c. \<not> is_space c) (coeff @ ?t2) \<noteq> []"
    using assms(1) tw by simp
  from re_plus_Cons [OF this] obtain ys where
    "re_plus (\<lambda>c. \<not> is_space c) (coeff @ ?t2) = ([], ?t2) # ys"
    by (simp add: dw)
  from re_group_Cons [where m = "re_plus (\<lambda>c. \<not> is_space c)" and s = "coeff @ ?t2", OF this]
  obtain zs where
    "re_group (re_plus (\<lambda>c. \<not> is_space c)) (coeff @ ?t2) = [] @ ([coeff], ?t2) # zs"
    by simp
  from re_seq_first [where ?m1.0 = "re_group (re_plus (\<lambda>c. \<not> is_space c))" and ?m2.0 = ?m2,
      OF this _ 2]
  have "re_match (re_seq (re_group (re_plus (\<lambda>c. \<not> is_space c))) ?m2) (coeff @ ?t2)
      = Some ([coeff, ops], rest)"
    by simp
  then show ?thesis by (simp add: loose_term_re_def)
qed

lemma concat_map_first:
  "concat (map F L) = x # xs \<Longrightarrow> \<exists>y \<in> set L. \<exists>ys. F y = x # ys"
proof (induction L)
  case Nil
  then show ?case by simp
next
  case (Cons y L)
  show ?case
  proof (cases "F y")
    case Nil
    with Cons show ?thesis by auto
  next
    case (Cons z zs)
    with Cons.prems show ?thesis by auto
  qed
qed

lemma re_seq_match_in:
  assumes "re_match (re_seq m1 m2) s = Some (g, r)"
  obtains g1 r1 g2 where "(g1, r1) \<in> set (m1 s)" "re_match m2 r1 = Some (g2, r)" "g = g1 @ g2"
proof -
  let ?F = "\<lambda>(g1, r1). map (\<lambda>(g2, r2). (g1 @ g2, r2)) (m2 r1)"
  from assms obtain xs where "concat (map ?F (m1 s)) = (g, r) # xs"
    by (auto simp: re_match_def re_seq_def split: list.splits)
  from concat_map_first [OF this] obtain y ys where y: "y \<in> set (m1 s)" "?F y = (g, r) # ys"
    by blast
  obtain g1 r1 where y': "y = (g1, r1)" by (cases y)
  with y(2) obtain g2 zs where "m2 r1 = (g2, r) # zs" "g = g1 @ g2"
    by (cases "m2 r1") auto
  then have "re_match m2 r1 = Some (g2, r)" "g = g1 @ g2"
    by (simp_all add: re_match_def)
  with y(1) y' show ?thesis by (intro that [of g1 r1 g2]) simp_all
qed

lemma concat_map_upt_first_ex:
  "concat (map F [0..<N]) = x # xs \<Longrightarrow>
   \<exists>k<N. (\<exists>ys. F k = x # ys) \<and> (\<forall>j<k. F j = [])"
proof (induction N arbitrary: xs)
  case 0
  then show ?case by simp
next
  case (Suc N)
  show ?case
  proof (cases "concat (map F [0..<N])")
    case Nil
    then have "\<forall>j<N. F j = []" by auto
    moreover have "F N = x # xs"
    proof -
      have "concat (map F [0..<Suc N]) = concat (map F [0..<N]) @ F N" by simp
      also have "\<dots> = F N" unfolding Nil by simp
      finally have "concat (map F [0..<Suc N]) = F N" .
      with Suc.prems show ?thesis by (simp only:)
    qed
    ultimately show ?thesis by blast
  next
    case (Cons z zs)
    with Suc.prems have "z = x" by simp
    with Cons Suc.IH [of zs] obtain k where "k < N" "\<exists>ys. F k = x # ys" "\<forall>j<k. F j = []"
      by blast
    then show ?thesis using less_Suc_eq by blast
  qed
qed

lemma concat_map_upt_first:
  assumes "concat (map F [0..<N]) = x # xs"
  obtains k ys where "k < N" "F k = x # ys" "\<forall>j<k. F j = []"
  using concat_map_upt_first_ex [OF assms] by blast

lemma take_within_run:
  "k \<le> length (takeWhile P t) \<Longrightarrow> x \<in> set (take k t) \<Longrightarrow> P x"
proof (induction t arbitrary: k)
  case Nil
  then show ?case by simp
next
  case (Cons c t)
  show ?case
  proof (cases k)
    case 0
    with Cons.prems show ?thesis by simp
  next
    case (Suc k')
    with Cons.prems have "P c" by (auto split: if_splits)
    with Cons.prems Suc have "k' \<le> length (takeWhile P t)" "x = c \<or> x \<in> set (take k' t)"
      by auto
    with Cons.IH \<open>P c\<close> show ?thesis by blast
  qed
qed

lemma lazy_until_match:
  assumes "re_match (re_seq (re_group (re_lazy_star P)) (re_chr Q)) t = Some (g, r)"
  shows "\<exists>a c. g = [a] \<and> t = a @ c # r \<and> Q c \<and> (\<forall>x \<in> set a. P x \<and> \<not> Q x)"
proof -
  let ?n = "length (takeWhile P t)"
  let ?F = "\<lambda>k. map (\<lambda>(g2, r2). ([take k t] @ g2, r2)) (re_chr Q (drop k t))"
  have eq: "re_seq (re_group (re_lazy_star P)) (re_chr Q) t = concat (map ?F [0..<Suc ?n])"
    unfolding re_seq_def re_group_lazy_star map_map comp_def by simp
  from assms obtain xs where "re_seq (re_group (re_lazy_star P)) (re_chr Q) t = (g, r) # xs"
    by (auto simp: re_match_def split: list.splits)
  then have "concat (map ?F [0..<Suc ?n]) = (g, r) # xs"
    unfolding eq .
  then obtain k ys where
    k: "k < Suc ?n" "?F k = (g, r) # ys" "\<forall>j<k. ?F j = []"
    by (rule concat_map_upt_first)
  define a where "a = take k t"
  from k(2) obtain c where c: "drop k t = c # r" "Q c" "g = [a]"
    unfolding a_def by (cases "drop k t") (auto split: if_splits)
  have "take k t @ drop k t = t" by simp
  then have t: "t = a @ c # r"
    unfolding c(1) a_def by (rule sym)
  have "P x \<and> \<not> Q x" if "x \<in> set a" for x
  proof -
    from that obtain j where j: "j < k" "j < length t" "x = t ! j"
      unfolding a_def by (auto simp: in_set_conv_nth)
    have "P x"
      using k(1) that unfolding a_def by (intro take_within_run [of k P t x]) simp_all
    moreover have "\<not> Q x"
    proof
      assume "Q x"
      have "drop j t = x # drop (Suc j) t"
        using j by (simp add: Cons_nth_drop_Suc)
      with \<open>Q x\<close> have "?F j \<noteq> []" by simp
      with k(3) j(1) show False by blast
    qed
    ultimately show ?thesis ..
  qed
  then have "\<forall>x \<in> set a. P x \<and> \<not> Q x" by blast
  with t c(2,3) show ?thesis by (intro exI [of _ a] exI [of _ c]) simp
qed

lemma loose_term_match_shape:
  assumes "re_match loose_term_re s = Some (g, r)"
  shows "\<exists>coeff ws ops. g = [coeff, ops] \<and> s = coeff @ ws @ ''['' @ ops @ '']'' @ r
     \<and> coeff \<noteq> [] \<and> (\<forall>c \<in> set coeff. \<not> is_space c) \<and> (\<forall>c \<in> set ws. is_space c)
     \<and> (\<forall>c \<in> set ops. c \<noteq> CHR 0x0A \<and> c \<noteq> CHR '']'')"
proof -
  let ?m4 = "re_seq (re_group (re_lazy_star (\<lambda>c. c \<noteq> CHR 0x0A))) (re_chr (\<lambda>c. c = CHR '']''))"
  let ?m3 = "re_seq (re_chr (\<lambda>c. c = CHR ''['')) ?m4"
  let ?m2 = "re_seq (re_star is_space) ?m3"
  have "re_match (re_seq (re_group (re_plus (\<lambda>c. \<not> is_space c))) ?m2) s = Some (g, r)"
    using assms by (simp add: loose_term_re_def)
  then obtain g1 r1 g2 where
    1: "(g1, r1) \<in> set (re_group (re_plus (\<lambda>c. \<not> is_space c)) s)"
    and 2: "re_match ?m2 r1 = Some (g2, r)" and g: "g = g1 @ g2"
    by (rule re_seq_match_in)
  from 1 obtain k where k: "1 \<le> k" "k \<le> length (takeWhile (\<lambda>c. \<not> is_space c) s)"
    "r1 = drop k s" "g1 = [take (length s - length r1) s]"
    by (auto simp: in_re_group in_re_plus)
  have ks: "k \<le> length s"
    using k(2) length_takeWhile_le [of "\<lambda>c. \<not> is_space c" s] by simp
  define coeff where "coeff = take k s"
  have g1: "g1 = [coeff]" using k(3,4) ks by (simp add: coeff_def)
  have coeff: "coeff \<noteq> []" "\<forall>c \<in> set coeff. \<not> is_space c"
  proof -
    show "coeff \<noteq> []" using k(1) ks unfolding coeff_def by (cases s) auto
    show "\<forall>c \<in> set coeff. \<not> is_space c"
      using k(2) unfolding coeff_def by (blast dest: take_within_run)
  qed
  from 2 obtain h1 r2 h2 where
    3: "(h1, r2) \<in> set (re_star is_space r1)"
    and 4: "re_match ?m3 r2 = Some (h2, r)" and g2: "g2 = h1 @ h2"
    by (rule re_seq_match_in)
  from 3 obtain j where j: "j \<le> length (takeWhile is_space r1)" "r2 = drop j r1" "h1 = []"
    by (auto simp: in_re_star)
  define ws where "ws = take j r1"
  have ws: "\<forall>c \<in> set ws. is_space c"
    using j(1) unfolding ws_def by (blast dest: take_within_run)
  from 4 obtain i1 r3 i2 where
    5: "(i1, r3) \<in> set (re_chr (\<lambda>c. c = CHR ''['') r2)"
    and 6: "re_match ?m4 r3 = Some (i2, r)" and h2: "h2 = i1 @ i2"
    by (rule re_seq_match_in)
  from 5 have r2: "r2 = CHR ''['' # r3" "i1 = []"
    by (auto simp: in_re_chr)
  from lazy_until_match [OF 6] obtain ops c where
    ops: "i2 = [ops]" "r3 = ops @ c # r" "c = CHR '']''"
    "\<forall>x \<in> set ops. x \<noteq> CHR 0x0A \<and> x \<noteq> CHR '']''"
    by (elim exE conjE) (rule that)
  have "s = coeff @ r1" using k(3) by (simp add: coeff_def)
  moreover have "r1 = ws @ r2" using j(2) by (simp add: ws_def)
  ultimately have "s = coeff @ ws @ ''['' @ ops @ '']'' @ r"
    using r2(1) ops(2,3) by (simp only: append_Cons append_Nil)
  moreover have "g = [coeff, ops]"
    using g g1 g2 j(3) h2 r2(2) ops(1) by simp
  ultimately show ?thesis using coeff ws ops(4)
    by (intro exI [of _ coeff] exI [of _ ws] exI [of _ ops]) simp
qed

subsection \<open>An index beyond the digit limit\<close>

lemma term_match:
  assumes "coeff \<noteq> []" and "\<forall>c \<in> set coeff. c \<noteq> CHR '')''"
    and "\<forall>c \<in> set ws. is_space c"
    and "\<forall>c \<in> set ops. c \<noteq> CHR 0x0A \<and> c \<noteq> CHR '']''"
  shows "re_match term_re (''('' @ coeff @ '')'' @ ws @ ''['' @ ops @ '']'' @ rest)
     = Some ([coeff, ops], rest)"
proof -
  let ?t4 = "ops @ CHR '']'' # rest"
  let ?t2 = "ws @ CHR ''['' # ?t4"
  let ?t1 = "CHR '')'' # ?t2"
  let ?m4 = "re_seq (re_group (re_lazy_star (\<lambda>c. c \<noteq> CHR 0x0A))) (re_chr (\<lambda>c. c = CHR '']''))"
  let ?m3 = "re_seq (re_chr (\<lambda>c. c = CHR ''['')) ?m4"
  let ?m2 = "re_seq (re_star is_space) ?m3"
  let ?m1 = "re_seq (re_chr (\<lambda>c. c = CHR '')'')) ?m2"
  let ?P = "\<lambda>c. c \<noteq> CHR '')''"
  have 4: "re_match ?m4 ?t4 = Some ([ops], rest)"
    using assms(4) by (intro lazy_until_first) auto
  have 3: "re_match ?m3 (CHR ''['' # ?t4) = Some ([ops], rest)"
    using 4 by (simp add: re_seq_def re_match_def)
  have "\<not> is_space CHR ''[''" by (simp add: is_space_def)
  then have "dropWhile is_space ?t2 = CHR ''['' # ?t4"
    using assms(3) by (intro dropWhile_run) simp_all
  then obtain xs where "re_star is_space ?t2 = [] @ ([], CHR ''['' # ?t4) # xs"
    by (simp add: re_star_Cons)
  from re_seq_first [where ?m1.0 = "re_star is_space" and ?m2.0 = ?m3, OF this _ 3]
  have 2: "re_match ?m2 ?t2 = Some ([ops], rest)"
    by simp
  have 1: "re_match ?m1 ?t1 = Some ([ops], rest)"
    using 2 by (simp add: re_seq_def re_match_def)
  have tw: "takeWhile ?P (coeff @ ?t1) = coeff"
    using assms(2) by (intro takeWhile_run) simp_all
  have dw: "dropWhile ?P (coeff @ ?t1) = ?t1"
    using assms(2) by (intro dropWhile_run) simp_all
  have "takeWhile ?P (coeff @ ?t1) \<noteq> []"
    using assms(1) tw by simp
  from re_plus_Cons [OF this] obtain ys where
    "re_plus ?P (coeff @ ?t1) = ([], ?t1) # ys"
    by (simp add: dw)
  from re_group_Cons [where m = "re_plus ?P" and s = "coeff @ ?t1", OF this]
  obtain zs where
    "re_group (re_plus ?P) (coeff @ ?t1) = [] @ ([coeff], ?t1) # zs"
    by simp
  from re_seq_first [where ?m1.0 = "re_group (re_plus ?P)" and ?m2.0 = ?m1, OF this _ 1]
  have "re_match (re_seq (re_group (re_plus ?P)) ?m1) (coeff @ ?t1) = Some ([coeff, ops], rest)"
    by simp
  then show ?thesis by (simp add: term_re_def re_seq_def re_match_def)
qed

lemma findall_single_term:
  assumes "coeff \<noteq> []" and "\<forall>c \<in> set coeff. c \<noteq> CHR '')''"
    and "\<forall>c \<in> set ws. is_space c"
    and "\<forall>c \<in> set ops. c \<noteq> CHR 0x0A \<and> c \<noteq> CHR '']''"
  shows "re_findall term_re (''('' @ coeff @ '')'' @ ws @ ''['' @ ops @ '']'') = [[coeff, ops]]"
proof -
  have "re_match term_re (''('' @ coeff @ '')'' @ ws @ ''['' @ ops @ '']'' @ [])
      = Some ([coeff, ops], [])"
    using assms by (rule term_match)
  moreover have "re_match term_re [] = None"
    by (simp add: term_re_def re_match_def re_seq_def)
  ultimately show ?thesis
    by (subst re_findall.simps) (simp add: re_findall.simps [of _ "[]"])
qed

lemma split_ws_token:
  assumes "tok \<noteq> []" and "\<forall>c \<in> set tok. \<not> is_space c"
  shows "split_ws tok = [tok]"
proof -
  obtain c cs where tok: "tok = c # cs" using assms(1) by (cases tok) auto
  have "takeWhile (\<lambda>x. \<not> is_space x) cs = cs" and "dropWhile (\<lambda>x. \<not> is_space x) cs = []"
    using assms(2) tok by simp_all
  then have "split_ws (c # cs) = [c # cs]"
    using assms(2) tok by (simp del: takeWhile_eq_all_conv dropWhile_eq_Nil_conv)
  then show ?thesis using tok by simp
qed

lemma findall_long_index:
  "re_findall term_re (''(1.0) [X'' @ replicate n CHR ''1'' @ '']'')
     = [[''1.0'', CHR ''X'' # replicate n CHR ''1'']]"
proof -
  let ?tok = "CHR ''X'' # replicate n CHR ''1''"
  have "re_findall term_re (''('' @ ''1.0'' @ '')'' @ '' '' @ ''['' @ ?tok @ '']'')
      = [[''1.0'', ?tok]]"
    by (rule findall_single_term) (simp_all add: is_space_def)
  then show ?thesis by simp
qed

lemma long_index_raises:
  assumes "4300 < n" and "py_complex ''1.0'' = Some z"
  shows "parse_hamiltonian_to_sparsepauliop py_decode py_complex
      (Str (''(1.0) [X'' @ replicate n CHR ''1'' @ '']'')) = Inl ValueError"
proof -
  let ?tok = "CHR ''X'' # replicate n CHR ''1''"
  have "is_digit CHR ''1''" "\<not> is_space CHR ''1''" "\<not> is_space CHR ''X''"
    by (simp_all add: is_digit_def is_space_def)
  then have "index_digits ?tok = replicate n CHR ''1''" and toks: "split_ws ?tok = [?tok]"
    by (simp_all add: index_digits_def split_ws_token del: split_ws.simps)
  then have "try_operators [] (split_ws ?tok) = Inl ValueError"
    using assms(1) by (simp add: try_operators_eq)
  moreover have "strip ''1.0'' = ''1.0''"
    by (simp add: strip_def is_space_def)
  ultimately have "parse_terms py_complex [[''1.0'', ?tok]] [] = Inl ValueError"
    using assms(2) by (simp del: split_ws.simps)
  moreover have "parse_hamiltonian_to_sparsepauliop py_decode py_complex
      (Str (''(1.0) [X'' @ replicate n CHR ''1'' @ '']''))
      = parse_terms py_complex (re_findall term_re (''(1.0) [X'' @ replicate n CHR ''1'' @ '']'')) []"
    by (simp add: parse_hamiltonian_to_sparsepauliop_def decode_data_def del: re_findall.simps)
  ultimately show ?thesis
    by (simp only: findall_long_index)
qed

lemma long_index_well_formed_coefficient:
  assumes "4300 < n"
  shows "parse_hamiltonian_to_sparsepauliop Some
        (\<lambda>s. if s = ''1.0'' then Some (1::complex) else None)
        (Str (''(1.0) [X'' @ replicate n CHR ''1'' @ '']'')) = Inl ValueError
   \<and> \<not> (\<exists>c ops. [c, ops] \<in> set (re_findall term_re (''(1.0) [X'' @ replicate n CHR ''1'' @ '']''))
          \<and> (if strip c = ''1.0'' then Some (1::complex) else None) = None)"
proof -
  have "strip ''1.0'' = ''1.0''"
    by (simp add: strip_def is_space_def)
  then show ?thesis
    unfolding findall_long_index
    using long_index_raises [where n = n and z = 1 and py_decode = Some
        and py_complex = "\<lambda>s. if s = ''1.0'' then Some (1::complex) else None"] assms
    by simp
qed

text \<open>
  Claim C6 as the specification states it fails: in the text \<open>(1.0) [X1...1]\<close> with 4301
  digits after the letter, the one matched term has a coefficient that parses, and the
  parser raises \<open>ValueError\<close> all the same, from \<open>int\<close> on the index.
\<close>

theorem index_digit_limit_counterexample:
  "parse_hamiltonian_to_sparsepauliop Some (\<lambda>s. if s = ''1.0'' then Some (1::complex) else None)
      (Str (''(1.0) [X'' @ replicate 4301 CHR ''1'' @ '']'')) = Inl ValueError
   \<and> \<not> (\<exists>c ops. [c, ops] \<in> set (re_findall term_re (''(1.0) [X'' @ replicate 4301 CHR ''1'' @ '']''))
          \<and> (if strip c = ''1.0'' then Some (1::complex) else None) = None)"
  by (rule long_index_well_formed_coefficient) simp

subsection \<open>What the normalizer emits\<close>

text \<open>
  The output of the normalizer is a list of canonical terms joined by the delimiter
  (\<open>first_pass_shape\<close>). Normalizing that output finds each term again and takes its
  coefficient, parentheses included, as the new coefficient (\<open>second_pass\<close>).
\<close>

lemma strip_Nil [simp]: "strip [] = []"
  by (simp add: strip_def)

lemma strip_id:
  assumes "s \<noteq> []" "\<not> is_space (hd s)" "\<not> is_space (last s)"
  shows "strip s = s"
proof -
  have "dropWhile is_space s = s"
    using assms(1,2) by (cases s) simp_all
  moreover have "dropWhile is_space (rev s) = rev s"
    using assms(1,3) by (cases "rev s") (simp_all add: hd_rev [symmetric])
  ultimately show ?thesis by (simp add: strip_def)
qed

lemma strip_core:
  assumes "\<forall>c \<in> set lead. is_space c" "\<forall>c \<in> set trail. is_space c"
    and "core \<noteq> []" "\<not> is_space (hd core)" "\<not> is_space (last core)"
  shows "strip (lead @ core @ trail) = core"
proof -
  have 1: "dropWhile is_space (lead @ core @ trail) = core @ trail"
    using assms(1,3,4) by (cases core) simp_all
  have "dropWhile is_space (rev trail @ rev core) = dropWhile is_space (rev core)"
    by (rule dropWhile_append2) (use assms(2) in auto)
  also have "\<dots> = rev core"
    using assms(3,5) by (cases "rev core") (simp_all add: hd_rev [symmetric])
  finally show ?thesis by (simp add: strip_def 1)
qed

lemma strip_ends:
  assumes "strip s \<noteq> []"
  shows "\<not> is_space (hd (strip s)) \<and> \<not> is_space (last (strip s))"
proof -
  let ?d = "dropWhile is_space s"
  let ?e = "dropWhile is_space (rev ?d)"
  have e: "?e \<noteq> []" using assms by (simp add: strip_def)
  then have "\<not> is_space (hd ?e)" by (rule hd_dropWhile)
  then have last: "\<not> is_space (last (strip s))"
    using e by (simp add: strip_def last_rev)
  have d: "?d \<noteq> []"
  proof
    assume "?d = []"
    then have "?e = []" by (simp only: rev.simps dropWhile.simps)
    with e show False ..
  qed
  then have "\<not> is_space (hd ?d)" by (rule hd_dropWhile)
  then have "\<not> is_space (last (rev ?d))" using d by (simp add: last_rev)
  moreover have "last ?e = last (rev ?d)"
    using e by (metis last_appendR takeWhile_dropWhile_id)
  ultimately have "\<not> is_space (last ?e)" by simp
  then have "\<not> is_space (hd (strip s))"
    using e by (simp add: strip_def hd_rev)
  with last show ?thesis by simp
qed

lemma strip_idem: "strip (strip s) = strip s"
proof (cases "strip s = []")
  case True
  then show ?thesis by simp
next
  case False
  with strip_ends [OF False] show ?thesis by (intro strip_id) simp_all
qed

lemma normalize_term_match:
  assumes "strip p \<noteq> []"
    and "re_match loose_term_re (strip p) = Some ([coeff, ops], r)"
  shows "normalize_term acc p = acc @ [canonical_term coeff (strip ops)]"
  using assms by (simp add: normalize_term_def canonical_term_def Let_def)

lemma normalize_term_cases:
  "normalize_term acc p = acc \<or>
   (\<exists>coeff ops ws r. normalize_term acc p = acc @ [canonical_term coeff (strip ops)]
      \<and> strip p = coeff @ ws @ ''['' @ ops @ '']'' @ r
      \<and> coeff \<noteq> [] \<and> (\<forall>c \<in> set coeff. \<not> is_space c)
      \<and> (\<forall>c \<in> set ops. c \<noteq> CHR 0x0A \<and> c \<noteq> CHR '']''))"
proof (cases "strip p = []")
  case True
  then have "normalize_term acc p = acc"
    by (simp add: normalize_term_def Let_def)
  then show ?thesis ..
next
  case False
  show ?thesis
  proof (cases "re_match loose_term_re (strip p)")
    case None
    then have "normalize_term acc p = acc"
      by (simp add: normalize_term_def Let_def)
    then show ?thesis ..
  next
    case (Some x)
    obtain g r where x: "x = (g, r)" by (cases x)
    from Some x have m: "re_match loose_term_re (strip p) = Some (g, r)" by simp
    from loose_term_match_shape [OF m] obtain coeff ws ops where
      sh: "g = [coeff, ops]" "strip p = coeff @ ws @ ''['' @ ops @ '']'' @ r"
        "coeff \<noteq> []" "\<forall>c \<in> set coeff. \<not> is_space c"
        "\<forall>c \<in> set ops. c \<noteq> CHR 0x0A \<and> c \<noteq> CHR '']''"
      by (elim exE conjE) (rule that)
    have "normalize_term acc p = acc @ [canonical_term coeff (strip ops)]"
      using False m sh(1) by (intro normalize_term_match) simp_all
    with sh show ?thesis by blast
  qed
qed

lemma split_on_parts_no_sep: "p \<in> set (split_on sep s) \<Longrightarrow> sep \<notin> set p"
proof (induction s arbitrary: p)
  case Nil
  then show ?case by simp
next
  case (Cons c s)
  obtain q qs where qs: "split_on sep s = q # qs"
    using split_on_not_Nil [of sep s] by (cases "split_on sep s") auto
  have q: "sep \<notin> set q" using Cons.IH [of q] qs by simp
  show ?case
  proof (cases "c = sep")
    case True
    with Cons show ?thesis by auto
  next
    case False
    with Cons.prems qs have "p = c # q \<or> p \<in> set qs" by simp
    then show ?thesis
    proof
      assume "p = c # q"
      with q False show ?thesis by auto
    next
      assume "p \<in> set qs"
      then show ?thesis using Cons.IH [of p] qs by simp
    qed
  qed
qed

lemma normalize_term_ok:
  assumes "CHR ''+'' \<notin> set p"
  shows "normalize_term acc p = acc
     \<or> (\<exists>t. term_parts_ok t \<and> normalize_term acc p = acc @ [canonical t])"
proof -
  from normalize_term_cases [of acc p] show ?thesis
  proof (elim disjE exE conjE)
    assume "normalize_term acc p = acc"
    then show ?thesis ..
  next
    fix coeff ops ws r
    assume n: "normalize_term acc p = acc @ [canonical_term coeff (strip ops)]"
      and sp: "strip p = coeff @ ws @ ''['' @ ops @ '']'' @ r"
      and c: "coeff \<noteq> []" "\<forall>c \<in> set coeff. \<not> is_space c"
      and o: "\<forall>c \<in> set ops. c \<noteq> CHR 0x0A \<and> c \<noteq> CHR '']''"
    have "set coeff \<subseteq> set (strip p)" "set ops \<subseteq> set (strip p)"
      unfolding sp by auto
    then have plus: "CHR ''+'' \<notin> set coeff" "CHR ''+'' \<notin> set ops"
      using assms set_strip [of p] by auto
    have so: "set (strip ops) \<subseteq> set ops" by (rule set_strip)
    have "\<forall>x \<in> set coeff. \<not> is_space x \<and> x \<noteq> CHR ''+''"
      using c(2) plus(1) by blast
    moreover have "\<forall>x \<in> set (strip ops). x \<noteq> CHR 0x0A \<and> x \<noteq> CHR '']'' \<and> x \<noteq> CHR ''+''"
      using o plus(2) so by blast
    ultimately have "term_parts_ok (coeff, strip ops)"
      unfolding term_parts_ok_def fst_conv snd_conv
      using c(1) strip_idem [of ops] by (intro conjI)
    moreover have "normalize_term acc p = acc @ [canonical (coeff, strip ops)]"
      by (simp add: n canonical_def)
    ultimately show ?thesis
      by (intro disjI2 exI [of _ "(coeff, strip ops)"] conjI)
  qed
qed

lemma first_pass_shape:
  assumes "\<forall>p \<in> set ps. CHR ''+'' \<notin> set p"
  shows "\<exists>T. list_all term_parts_ok T
     \<and> foldl normalize_term (map canonical T0) ps = map canonical (T0 @ T)"
  using assms
proof (induction ps arbitrary: T0)
  case Nil
  show ?case by (intro exI [of _ "[]"]) simp
next
  case (Cons p ps)
  then have p: "CHR ''+'' \<notin> set p" and ps: "\<forall>p \<in> set ps. CHR ''+'' \<notin> set p"
    by simp_all
  from normalize_term_ok [OF p, of "map canonical T0"] show ?case
  proof (elim disjE exE conjE)
    assume "normalize_term (map canonical T0) p = map canonical T0"
    with Cons.IH [OF ps, of T0] show ?thesis by simp
  next
    fix t
    assume t: "term_parts_ok t"
      and "normalize_term (map canonical T0) p = map canonical T0 @ [canonical t]"
    then have n: "normalize_term (map canonical T0) p = map canonical (T0 @ [t])" by simp
    from Cons.IH [OF ps, of "T0 @ [t]"] obtain T where
      T: "list_all term_parts_ok T"
        "foldl normalize_term (map canonical (T0 @ [t])) ps = map canonical ((T0 @ [t]) @ T)"
      by (elim exE conjE) (rule that)
    show ?thesis
      using T t n by (intro exI [of _ "t # T"]) simp
  qed
qed

lemma canonical_no_plus:
  assumes "term_parts_ok t"
  shows "CHR ''+'' \<notin> set (canonical t)"
proof -
  from assms have "CHR ''+'' \<notin> set (fst t)" "CHR ''+'' \<notin> set (snd t)"
    unfolding term_parts_ok_def by blast+
  then show ?thesis
    by (simp add: canonical_def canonical_term_def)
qed

lemma not_space_chars:
  "\<not> is_space CHR ''(''" "\<not> is_space CHR '')''" "\<not> is_space CHR '']''"
  "\<not> is_space CHR ''[''" "\<not> is_space CHR ''+''" "is_space CHR '' ''" "is_space CHR 0x0A"
  by (simp_all add: is_space_def)

lemma rewrap_term:
  assumes "term_parts_ok t"
    and "\<forall>c \<in> set lead. is_space c" and "\<forall>c \<in> set trail. is_space c"
  shows "normalize_term acc (lead @ canonical t @ trail) = acc @ [canonical (rewrap t)]"
proof -
  obtain coeff ops where t: "t = (coeff, ops)" by (cases t)
  from assms(1) have ok: "\<forall>c \<in> set coeff. \<not> is_space c"
      "\<forall>c \<in> set ops. c \<noteq> CHR 0x0A \<and> c \<noteq> CHR '']''" "strip ops = ops"
    unfolding term_parts_ok_def t fst_conv snd_conv by blast+
  have core: "canonical t = (''('' @ coeff @ '')'') @ '' '' @ ''['' @ ops @ '']'' @ []"
    by (simp add: canonical_def canonical_term_def t)
  have "canonical t \<noteq> []" "hd (canonical t) = CHR ''(''" "last (canonical t) = CHR '']''"
    by (simp_all add: canonical_def canonical_term_def)
  then have st: "strip (lead @ canonical t @ trail) = canonical t"
    using assms(2,3) by (intro strip_core) (simp_all add: not_space_chars)
  have "re_match loose_term_re ((''('' @ coeff @ '')'') @ '' '' @ ''['' @ ops @ '']'' @ [])
      = Some ([''('' @ coeff @ '')'', ops], [])"
    using ok(1,2) by (intro loose_term_match) (auto simp: not_space_chars)
  then have "re_match loose_term_re (canonical t) = Some ([''('' @ coeff @ '')'', ops], [])"
    by (simp only: core)
  then have m: "re_match loose_term_re (strip (lead @ canonical t @ trail))
      = Some ([''('' @ coeff @ '')'', ops], [])"
    by (simp only: st)
  have "strip (lead @ canonical t @ trail) \<noteq> []"
    unfolding st by (simp add: canonical_def canonical_term_def)
  from normalize_term_match [OF this m]
  show ?thesis
    by (simp add: ok(3) canonical_def rewrap_def t)
qed

lemma second_pass:
  assumes "list_all term_parts_ok T" and "T \<noteq> []" and "\<forall>c \<in> set lead. is_space c"
  shows "foldl normalize_term acc
       (split_on CHR ''+'' (lead @ join_str ('' +'' @ [CHR 0x0A]) (map canonical T)))
     = acc @ map (\<lambda>t. canonical (rewrap t)) T"
  using assms
proof (induction T arbitrary: lead acc)
  case Nil
  then show ?case by simp
next
  case (Cons t T)
  then have t: "term_parts_ok t" by simp
  have lead: "CHR ''+'' \<notin> set lead"
    using Cons.prems(3) not_space_chars(5) by blast
  show ?case
  proof (cases T)
    case Nil
    have "CHR ''+'' \<notin> set (lead @ canonical t)"
      using lead canonical_no_plus [OF t] by simp
    then have "split_on CHR ''+'' (lead @ canonical t) = [lead @ canonical t]"
      by (rule split_on_no_sep)
    moreover have "normalize_term acc (lead @ canonical t @ []) = acc @ [canonical (rewrap t)]"
      using t Cons.prems(3) by (intro rewrap_term) simp_all
    ultimately show ?thesis using Nil by simp
  next
    case (Cons t' T')
    let ?rest = "[CHR 0x0A] @ join_str ('' +'' @ [CHR 0x0A]) (map canonical T)"
    have join: "lead @ join_str ('' +'' @ [CHR 0x0A]) (map canonical (t # T))
        = (lead @ canonical t @ '' '') @ CHR ''+'' # ?rest"
      using Cons by simp
    have "CHR ''+'' \<notin> set (lead @ canonical t @ '' '')"
      using lead canonical_no_plus [OF t] by simp
    then have first: "split_on CHR ''+'' (lead @ canonical t @ '' '') = [lead @ canonical t @ '' '']"
      by (rule split_on_no_sep)
    have n: "normalize_term acc (lead @ canonical t @ '' '') = acc @ [canonical (rewrap t)]"
      using t Cons.prems(3) by (intro rewrap_term) (simp_all add: not_space_chars)
    have "foldl normalize_term (acc @ [canonical (rewrap t)]) (split_on CHR ''+'' ?rest)
        = (acc @ [canonical (rewrap t)]) @ map (\<lambda>t. canonical (rewrap t)) T"
      using Cons.prems(1) Cons by (intro Cons.IH) (simp_all add: not_space_chars)
    then show ?thesis
      unfolding join split_on_append first by (simp add: n)
  qed
qed

lemma length_join_rewrap:
  "length (join_str sep (map (\<lambda>t. canonical (rewrap t)) T))
     = length (join_str sep (map canonical T)) + 2 * length T"
proof (induction T)
  case Nil
  show ?case by simp
next
  case (Cons t T)
  have len: "length (canonical (rewrap t)) = length (canonical t) + 2"
    by (simp add: canonical_def canonical_term_def rewrap_def)
  show ?case
  proof (cases T)
    case Nil
    then show ?thesis by (simp add: len)
  next
    case (Cons t' T')
    with Cons.IH show ?thesis by (simp add: len)
  qed
qed

lemma normalize_twice:
  "\<exists>T. list_all term_parts_ok T
     \<and> normalize_data_format blob = join_str ('' +'' @ [CHR 0x0A]) (map canonical T)
     \<and> normalize_data_format (normalize_data_format blob)
         = join_str ('' +'' @ [CHR 0x0A]) (map (\<lambda>t. canonical (rewrap t)) T)"
proof -
  have "\<forall>p \<in> set (split_on CHR ''+'' blob). CHR ''+'' \<notin> set p"
    by (blast dest: split_on_parts_no_sep)
  from first_pass_shape [OF this, of "[]"] obtain T where
    T: "list_all term_parts_ok T"
      "foldl normalize_term [] (split_on CHR ''+'' blob) = map canonical T"
    by (elim exE conjE) (use that in simp)
  have once: "normalize_data_format blob = join_str ('' +'' @ [CHR 0x0A]) (map canonical T)"
    by (simp add: normalize_data_format_def T(2))
  have "normalize_data_format (normalize_data_format blob)
      = join_str ('' +'' @ [CHR 0x0A]) (map (\<lambda>t. canonical (rewrap t)) T)"
  proof (cases "T = []")
    case True
    have "normalize_data_format [] = []" by code_simp
    with True once show ?thesis by simp
  next
    case False
    have "foldl normalize_term []
        (split_on CHR ''+'' ([] @ join_str ('' +'' @ [CHR 0x0A]) (map canonical T)))
      = [] @ map (\<lambda>t. canonical (rewrap t)) T"
      using T(1) False by (intro second_pass) simp_all
    then have "normalize_data_format (join_str ('' +'' @ [CHR 0x0A]) (map canonical T))
      = join_str ('' +'' @ [CHR 0x0A]) (map (\<lambda>t. canonical (rewrap t)) T)"
      by (simp add: normalize_data_format_def)
    then show ?thesis by (simp only: once)
  qed
  with T(1) once show ?thesis by blast
qed

lemma normalize_plus_prefix:
  assumes "CHR ''['' \<notin> set a"
  shows "normalize_data_format (a @ ''+'' @ b) = normalize_data_format b"
proof -
  have "\<forall>p \<in> set (split_on CHR ''+'' a). CHR ''['' \<notin> set p"
    using assms split_on_parts [of _ "CHR ''+''" a] by blast
  then have "foldl normalize_term [] (split_on CHR ''+'' a) = []"
    by (rule foldl_normalize_term_no_bracket)
  then show ?thesis
    by (simp add: normalize_data_format_def split_on_append)
qed

lemma normalize_loose_term:
  assumes "coeff \<noteq> []" and "\<forall>c \<in> set coeff. \<not> is_space c \<and> c \<noteq> CHR ''+''"
    and "ws \<noteq> []" and "\<forall>c \<in> set ws. is_space c"
    and "\<forall>c \<in> set ops. c \<noteq> CHR 0x0A \<and> c \<noteq> CHR '']'' \<and> c \<noteq> CHR ''+''"
  shows "normalize_data_format (coeff @ ws @ ''['' @ ops @ '']'')
     = canonical_term coeff (strip ops)"
proof -
  let ?b = "coeff @ ws @ ''['' @ ops @ '']''"
  have ws: "CHR ''+'' \<notin> set ws"
    using assms(4) not_space_chars(5) by blast
  have "CHR ''+'' \<notin> set ?b"
    using assms(2,5) ws by auto
  then have split: "split_on CHR ''+'' ?b = [?b]"
    by (rule split_on_no_sep)
  have "\<not> is_space (hd ?b)" "\<not> is_space (last ?b)"
    using assms(1,2) by (simp_all add: not_space_chars)
  then have st: "strip ?b = ?b"
    using assms(1) by (intro strip_id) simp_all
  have "re_match loose_term_re (coeff @ ws @ ''['' @ ops @ '']'' @ []) = Some ([coeff, ops], [])"
    using assms by (intro loose_term_match) simp_all
  then have "re_match loose_term_re ?b = Some ([coeff, ops], [])"
    by simp
  then have m: "re_match loose_term_re (strip ?b) = Some ([coeff, ops], [])"
    by (simp only: st)
  have "strip ?b \<noteq> []" unfolding st using assms(1) by simp
  from normalize_term_match [OF this m, of "[]"]
  have nt: "normalize_term [] ?b = [canonical_term coeff (strip ops)]" by simp
  show ?thesis unfolding normalize_data_format_def split
    by (simp only: foldl.simps nt join_str.simps)
qed

lemma normalize_term_acc:
  "normalize_term acc p = acc @ normalize_term [] p"
  by (simp add: normalize_term_def Let_def split: option.splits list.splits prod.splits)

lemma foldl_normalize_term_acc:
  "foldl normalize_term acc ps = acc @ foldl normalize_term [] ps"
proof (induction ps arbitrary: acc)
  case Nil
  show ?case by simp
next
  case (Cons p ps)
  have "foldl normalize_term acc (p # ps) = normalize_term acc p @ foldl normalize_term [] ps"
    using Cons [of "normalize_term acc p"] by simp
  also have "\<dots> = acc @ normalize_term [] p @ foldl normalize_term [] ps"
    using normalize_term_acc [of acc p] by simp
  also have "normalize_term [] p @ foldl normalize_term [] ps
      = foldl normalize_term [] (p # ps)"
    using Cons [of "normalize_term [] p"] by simp
  finally show ?case .
qed

lemma normalized_terms_append:
  "foldl normalize_term [] (split_on CHR ''+'' (x @ ''+'' @ y))
     = foldl normalize_term [] (split_on CHR ''+'' x) @ foldl normalize_term [] (split_on CHR ''+'' y)"
  using foldl_normalize_term_acc [of "foldl normalize_term [] (split_on CHR ''+'' x)"
      "split_on CHR ''+'' y"]
  by (simp add: split_on_append)

lemma normalize_term_nonempty:
  assumes "t \<in> set (normalize_term [] p)"
  shows "t \<noteq> []"
proof -
  from normalize_term_cases [of "[]" p] show ?thesis
  proof (elim disjE exE conjE)
    assume "normalize_term [] p = []"
    with assms show ?thesis by simp
  next
    fix coeff ops ws r
    assume "normalize_term [] p = [] @ [canonical_term coeff (strip ops)]"
    with assms have "t = canonical_term coeff (strip ops)" by simp
    then show ?thesis by (simp add: canonical_term_def)
  qed
qed

lemma normalized_terms_nonempty:
  "t \<in> set (foldl normalize_term [] ps) \<Longrightarrow> t \<noteq> []"
proof (induction ps)
  case Nil
  then show ?case by simp
next
  case (Cons p ps)
  have "foldl normalize_term [] (p # ps) = normalize_term [] p @ foldl normalize_term [] ps"
    using foldl_normalize_term_acc [of "normalize_term [] p" ps] by simp
  then have "t \<in> set (normalize_term [] p) \<or> t \<in> set (foldl normalize_term [] ps)"
    using Cons.prems by simp
  then show ?case
    using normalize_term_nonempty [of t p] Cons.IH by blast
qed

lemma join_str_eq_Nil:
  "\<forall>t \<in> set xs. t \<noteq> [] \<Longrightarrow> join_str sep xs = [] \<longleftrightarrow> xs = []"
  by (induction sep xs rule: join_str.induct) simp_all

lemma join_str_append:
  "xs \<noteq> [] \<Longrightarrow> ys \<noteq> [] \<Longrightarrow>
   join_str sep (xs @ ys) = join_str sep xs @ sep @ join_str sep ys"
proof (induction sep xs rule: join_str.induct)
  case (1 sep)
  then show ?case by simp
next
  case (2 sep x)
  then show ?case by (cases ys) simp_all
next
  case (3 sep x y ys')
  then show ?case by simp
qed

lemma normalize_data_format_append:
  "normalize_data_format (x @ ''+'' @ y)
     = join_str ('' +'' @ [CHR 0x0A])
         (filter (\<lambda>s. s \<noteq> []) [normalize_data_format x, normalize_data_format y])"
proof -
  let ?sep = "'' +'' @ [CHR 0x0A]"
  let ?X = "foldl normalize_term [] (split_on CHR ''+'' x)"
  let ?Y = "foldl normalize_term [] (split_on CHR ''+'' y)"
  have app: "normalize_data_format (x @ ''+'' @ y) = join_str ?sep (?X @ ?Y)"
    unfolding normalize_data_format_def by (simp only: normalized_terms_append)
  have X: "join_str ?sep ?X = [] \<longleftrightarrow> ?X = []"
    by (intro join_str_eq_Nil) (blast dest: normalized_terms_nonempty)
  have Y: "join_str ?sep ?Y = [] \<longleftrightarrow> ?Y = []"
    by (intro join_str_eq_Nil) (blast dest: normalized_terms_nonempty)
  show ?thesis
  proof (cases "?X = []")
    case True
    then show ?thesis
      unfolding app using X Y by (simp add: normalize_data_format_def)
  next
    case False
    note nX = this
    show ?thesis
    proof (cases "?Y = []")
      case True
      then show ?thesis
        unfolding app using X Y nX by (simp add: normalize_data_format_def)
    next
      case False
      then have "join_str ?sep (?X @ ?Y) = join_str ?sep ?X @ ?sep @ join_str ?sep ?Y"
        using nX by (intro join_str_append)
      then show ?thesis
        unfolding app using X Y nX False by (simp add: normalize_data_format_def)
    qed
  qed
qed

lemma normalize_no_bracket:
  assumes "CHR ''['' \<notin> set a"
  shows "normalize_data_format a = []"
proof -
  have "\<forall>p \<in> set (split_on CHR ''+'' a). CHR ''['' \<notin> set p"
    using assms split_on_parts [of _ "CHR ''+''" a] by blast
  then have "foldl normalize_term [] (split_on CHR ''+'' a) = []"
    by (rule foldl_normalize_term_no_bracket)
  then show ?thesis
    by (simp add: normalize_data_format_def)
qed

lemma normalize_split_term_between:
  assumes "CHR ''['' \<notin> set a"
    and "coeff \<noteq> []" and "\<forall>c \<in> set coeff. \<not> is_space c \<and> c \<noteq> CHR ''+''"
    and "ws \<noteq> []" and "\<forall>c \<in> set ws. is_space c"
    and "\<forall>c \<in> set ops. c \<noteq> CHR 0x0A \<and> c \<noteq> CHR '']'' \<and> c \<noteq> CHR ''+''"
  shows "normalize_data_format
        (x @ ''+'' @ a @ ''+'' @ (coeff @ ws @ ''['' @ ops @ '']'') @ ''+'' @ y)
     = join_str ('' +'' @ [CHR 0x0A])
         (filter (\<lambda>s. s \<noteq> [])
            [normalize_data_format x, ''('' @ coeff @ '') ['' @ strip ops @ '']'',
             normalize_data_format y])"
proof -
  let ?T = "coeff @ ws @ ''['' @ ops @ '']''"
  let ?C = "''('' @ coeff @ '') ['' @ strip ops @ '']''"
  let ?J = "\<lambda>xs. join_str ('' +'' @ [CHR 0x0A]) (filter (\<lambda>s. s \<noteq> []) xs)"
  have T: "normalize_data_format ?T = ?C"
    using assms(2-6) normalize_loose_term [of coeff ws ops]
    by (simp add: canonical_term_def)
  have "normalize_data_format (a @ ''+'' @ ?T @ ''+'' @ y)
      = normalize_data_format (?T @ ''+'' @ y)"
    using assms(1) by (rule normalize_plus_prefix)
  also have "\<dots> = ?J [?C, normalize_data_format y]"
    unfolding normalize_data_format_append [of ?T y] T ..
  finally have 1: "normalize_data_format (a @ ''+'' @ ?T @ ''+'' @ y)
      = ?J [?C, normalize_data_format y]" .
  have "normalize_data_format (x @ ''+'' @ a @ ''+'' @ ?T @ ''+'' @ y)
      = ?J [normalize_data_format x, ?J [?C, normalize_data_format y]]"
    unfolding normalize_data_format_append [of x "a @ ''+'' @ ?T @ ''+'' @ y"] 1 ..
  also have "\<dots> = ?J [normalize_data_format x, ?C, normalize_data_format y]"
    by simp
  finally show ?thesis .
qed

text \<open>
  Claim C9: the normalizer splits at every \<open>+\<close> before it looks for terms. The loose term
  \<open>1.0+0.5j [X0]\<close> becomes \<open>(0.5j) [X0]\<close> only, also after another term:
  \<open>2.0 [Z1] + 1.0+0.5j [X0]\<close> becomes the two terms \<open>(2.0) [Z1]\<close> and \<open>(0.5j) [X0]\<close>.
  In general the output for a text with a \<open>+\<close> is made of the output for the text before
  it and the output for the text after it, joined by the separator when neither is empty.
  A text without an opening bracket gives no output, and a coefficient without whitespace,
  whitespace and a bracketed operator list give that one term in canonical form. So
  whenever the text before a \<open>+\<close> has no opening bracket, nothing of it is emitted, and
  the text after the \<open>+\<close> is emitted as a term with that text as its coefficient; this
  holds at the start of the input and between any other texts \<open>x\<close> and \<open>y\<close>, whose terms
  are emitted before and after it.
\<close>

theorem plus_in_coefficient_splits_term:
  "normalize_data_format ''1.0+0.5j [X0]'' = ''(0.5j) [X0]''
   \<and> normalize_data_format ''2.0 [Z1] + 1.0+0.5j [X0]''
       = ''(2.0) [Z1] +'' @ [CHR 0x0A] @ ''(0.5j) [X0]''
   \<and> (\<forall>x y. normalize_data_format (x @ ''+'' @ y)
         = join_str ('' +'' @ [CHR 0x0A])
             (filter (\<lambda>s. s \<noteq> []) [normalize_data_format x, normalize_data_format y]))
   \<and> (\<forall>a. CHR ''['' \<notin> set a \<longrightarrow> normalize_data_format a = [])
   \<and> (\<forall>coeff ws ops.
         coeff \<noteq> [] \<and> (\<forall>c \<in> set coeff. \<not> is_space c \<and> c \<noteq> CHR ''+'')
         \<and> ws \<noteq> [] \<and> (\<forall>c \<in> set ws. is_space c)
         \<and> (\<forall>c \<in> set ops. c \<noteq> CHR 0x0A \<and> c \<noteq> CHR '']'' \<and> c \<noteq> CHR ''+'') \<longrightarrow>
         normalize_data_format (coeff @ ws @ ''['' @ ops @ '']'')
           = ''('' @ coeff @ '') ['' @ strip ops @ '']'')
   \<and> (\<forall>a b. CHR ''['' \<notin> set a \<longrightarrow>
         normalize_data_format (a @ ''+'' @ b) = normalize_data_format b)
   \<and> (\<forall>a coeff ws ops.
         CHR ''['' \<notin> set a
         \<and> coeff \<noteq> [] \<and> (\<forall>c \<in> set coeff. \<not> is_space c \<and> c \<noteq> CHR ''+'')
         \<and> ws \<noteq> [] \<and> (\<forall>c \<in> set ws. is_space c)
         \<and> (\<forall>c \<in> set ops. c \<noteq> CHR 0x0A \<and> c \<noteq> CHR '']'' \<and> c \<noteq> CHR ''+'') \<longrightarrow>
         normalize_data_format (a @ ''+'' @ coeff @ ws @ ''['' @ ops @ '']'')
           = ''('' @ coeff @ '') ['' @ strip ops @ '']'')
   \<and> (\<forall>x a coeff ws ops y.
         CHR ''['' \<notin> set a
         \<and> coeff \<noteq> [] \<and> (\<forall>c \<in> set coeff. \<not> is_space c \<and> c \<noteq> CHR ''+'')
         \<and> ws \<noteq> [] \<and> (\<forall>c \<in> set ws. is_space c)
         \<and> (\<forall>c \<in> set ops. c \<noteq> CHR 0x0A \<and> c \<noteq> CHR '']'' \<and> c \<noteq> CHR ''+'') \<longrightarrow>
         normalize_data_format
             (x @ ''+'' @ a @ ''+'' @ (coeff @ ws @ ''['' @ ops @ '']'') @ ''+'' @ y)
           = join_str ('' +'' @ [CHR 0x0A])
               (filter (\<lambda>s. s \<noteq> [])
                  [normalize_data_format x, ''('' @ coeff @ '') ['' @ strip ops @ '']'',
                   normalize_data_format y]))"
proof (intro conjI allI impI)
  show "normalize_data_format ''1.0+0.5j [X0]'' = ''(0.5j) [X0]''"
    by code_simp
next
  show "normalize_data_format ''2.0 [Z1] + 1.0+0.5j [X0]''
      = ''(2.0) [Z1] +'' @ [CHR 0x0A] @ ''(0.5j) [X0]''"
    by code_simp
next
  fix x y :: string
  show "normalize_data_format (x @ ''+'' @ y)
      = join_str ('' +'' @ [CHR 0x0A])
          (filter (\<lambda>s. s \<noteq> []) [normalize_data_format x, normalize_data_format y])"
    by (rule normalize_data_format_append)
next
  fix a :: string
  assume "CHR ''['' \<notin> set a"
  then show "normalize_data_format a = []"
    by (rule normalize_no_bracket)
next
  fix coeff ws ops :: string
  assume h: "coeff \<noteq> [] \<and> (\<forall>c \<in> set coeff. \<not> is_space c \<and> c \<noteq> CHR ''+'')
      \<and> ws \<noteq> [] \<and> (\<forall>c \<in> set ws. is_space c)
      \<and> (\<forall>c \<in> set ops. c \<noteq> CHR 0x0A \<and> c \<noteq> CHR '']'' \<and> c \<noteq> CHR ''+'')"
  then have "normalize_data_format (coeff @ ws @ ''['' @ ops @ '']'')
      = canonical_term coeff (strip ops)"
    by (intro normalize_loose_term) simp_all
  then show "normalize_data_format (coeff @ ws @ ''['' @ ops @ '']'')
      = ''('' @ coeff @ '') ['' @ strip ops @ '']''"
    by (simp add: canonical_term_def)
next
  fix a b :: string
  assume "CHR ''['' \<notin> set a"
  then show "normalize_data_format (a @ ''+'' @ b) = normalize_data_format b"
    by (rule normalize_plus_prefix)
next
  fix a coeff ws ops :: string
  assume h: "CHR ''['' \<notin> set a
      \<and> coeff \<noteq> [] \<and> (\<forall>c \<in> set coeff. \<not> is_space c \<and> c \<noteq> CHR ''+'')
      \<and> ws \<noteq> [] \<and> (\<forall>c \<in> set ws. is_space c)
      \<and> (\<forall>c \<in> set ops. c \<noteq> CHR 0x0A \<and> c \<noteq> CHR '']'' \<and> c \<noteq> CHR ''+'')"
  then have "normalize_data_format (a @ ''+'' @ coeff @ ws @ ''['' @ ops @ '']'')
      = normalize_data_format (coeff @ ws @ ''['' @ ops @ '']'')"
    by (intro normalize_plus_prefix) simp
  also have "\<dots> = canonical_term coeff (strip ops)"
    using h by (intro normalize_loose_term) simp_all
  finally show "normalize_data_format (a @ ''+'' @ coeff @ ws @ ''['' @ ops @ '']'')
      = ''('' @ coeff @ '') ['' @ strip ops @ '']''"
    by (simp add: canonical_term_def)
next
  fix x a coeff ws ops y :: string
  assume h: "CHR ''['' \<notin> set a
      \<and> coeff \<noteq> [] \<and> (\<forall>c \<in> set coeff. \<not> is_space c \<and> c \<noteq> CHR ''+'')
      \<and> ws \<noteq> [] \<and> (\<forall>c \<in> set ws. is_space c)
      \<and> (\<forall>c \<in> set ops. c \<noteq> CHR 0x0A \<and> c \<noteq> CHR '']'' \<and> c \<noteq> CHR ''+'')"
  then show "normalize_data_format
        (x @ ''+'' @ a @ ''+'' @ (coeff @ ws @ ''['' @ ops @ '']'') @ ''+'' @ y)
      = join_str ('' +'' @ [CHR 0x0A])
          (filter (\<lambda>s. s \<noteq> [])
             [normalize_data_format x, ''('' @ coeff @ '') ['' @ strip ops @ '']'',
              normalize_data_format y])"
    by (intro normalize_split_term_between) simp_all
qed

theorem plus_in_coefficient_splits_term_witness:
  "normalize_data_format (''-2.5e'' @ ''+'' @ ''3'' @ '' '' @ ''['' @ ''Z1 X2'' @ '']'')
     = ''(3) [Z1 X2]''
   \<and> normalize_data_format
       (''2.0 [Z1] '' @ ''+'' @ '' 1.0'' @ ''+'' @ (''0.5j'' @ '' '' @ ''['' @ ''X0'' @ '']'')
          @ ''+'' @ '' 3 [Y2]'')
     = ''(2.0) [Z1] +'' @ [CHR 0x0A] @ ''(0.5j) [X0] +'' @ [CHR 0x0A] @ ''(3) [Y2]''"
proof
  have "CHR ''['' \<notin> set ''-2.5e''
      \<and> ''3'' \<noteq> [] \<and> (\<forall>c \<in> set ''3''. \<not> is_space c \<and> c \<noteq> CHR ''+'')
      \<and> '' '' \<noteq> [] \<and> (\<forall>c \<in> set '' ''. is_space c)
      \<and> (\<forall>c \<in> set ''Z1 X2''. c \<noteq> CHR 0x0A \<and> c \<noteq> CHR '']'' \<and> c \<noteq> CHR ''+'')"
    by (simp add: is_space_def)
  then have "normalize_data_format (''-2.5e'' @ ''+'' @ ''3'' @ '' '' @ ''['' @ ''Z1 X2'' @ '']'')
      = ''('' @ ''3'' @ '') ['' @ strip ''Z1 X2'' @ '']''"
    using plus_in_coefficient_splits_term [THEN conjunct2, THEN conjunct2, THEN conjunct2,
        THEN conjunct2, THEN conjunct2, THEN conjunct2, THEN conjunct1, rule_format,
        of "''-2.5e''" "''3''" "'' ''" "''Z1 X2''"]
    by blast
  moreover have "strip ''Z1 X2'' = ''Z1 X2''"
    by (simp add: strip_def is_space_def)
  ultimately show "normalize_data_format
      (''-2.5e'' @ ''+'' @ ''3'' @ '' '' @ ''['' @ ''Z1 X2'' @ '']'') = ''(3) [Z1 X2]''"
    by simp
next
  have "CHR ''['' \<notin> set '' 1.0''
      \<and> ''0.5j'' \<noteq> [] \<and> (\<forall>c \<in> set ''0.5j''. \<not> is_space c \<and> c \<noteq> CHR ''+'')
      \<and> '' '' \<noteq> [] \<and> (\<forall>c \<in> set '' ''. is_space c)
      \<and> (\<forall>c \<in> set ''X0''. c \<noteq> CHR 0x0A \<and> c \<noteq> CHR '']'' \<and> c \<noteq> CHR ''+'')"
    by (simp add: is_space_def)
  then have "normalize_data_format
      (''2.0 [Z1] '' @ ''+'' @ '' 1.0'' @ ''+'' @ (''0.5j'' @ '' '' @ ''['' @ ''X0'' @ '']'')
          @ ''+'' @ '' 3 [Y2]'')
      = join_str ('' +'' @ [CHR 0x0A])
          (filter (\<lambda>s. s \<noteq> [])
             [normalize_data_format ''2.0 [Z1] '', ''('' @ ''0.5j'' @ '') ['' @ strip ''X0'' @ '']'',
              normalize_data_format '' 3 [Y2]''])"
    using plus_in_coefficient_splits_term [THEN conjunct2, THEN conjunct2, THEN conjunct2,
        THEN conjunct2, THEN conjunct2, THEN conjunct2, THEN conjunct2, rule_format,
        of "'' 1.0''" "''0.5j''" "'' ''" "''X0''" "''2.0 [Z1] ''" "'' 3 [Y2]''"]
    by blast
  moreover have "strip ''X0'' = ''X0''"
    by (simp add: strip_def is_space_def)
  moreover have "normalize_data_format ''2.0 [Z1] '' = ''(2.0) [Z1]''"
    by code_simp
  moreover have "normalize_data_format '' 3 [Y2]'' = ''(3) [Y2]''"
    by code_simp
  ultimately show "normalize_data_format
      (''2.0 [Z1] '' @ ''+'' @ '' 1.0'' @ ''+'' @ (''0.5j'' @ '' '' @ ''['' @ ''X0'' @ '']'')
          @ ''+'' @ '' 3 [Y2]'')
     = ''(2.0) [Z1] +'' @ [CHR 0x0A] @ ''(0.5j) [X0] +'' @ [CHR 0x0A] @ ''(3) [Y2]''"
    by (simp only: append.simps join_str.simps filter.simps list.simps if_False if_True
        not_False_eq_True)
qed

subsection \<open>Idempotence of normalization\<close>

text \<open>
  Claim C8, as the code has it: normalizing twice gives what normalizing once gives
  exactly for a blob that the detector reports canonical, for a blob whose normalization
  the detector reports canonical, and for a blob whose normalization is empty. For any
  other blob the second normalization puts every coefficient in one more pair of
  parentheses.
\<close>

theorem normalize_if_needed_idempotent_iff:
  "normalize_if_needed (normalize_if_needed blob) = normalize_if_needed blob \<longleftrightarrow>
     needs_normalization blob = ''No''
     \<or> needs_normalization (normalize_data_format blob) = ''No''
     \<or> normalize_data_format blob = []"
proof (cases "needs_normalization blob = ''No''")
  case True
  then show ?thesis by (simp add: normalize_if_needed_def)
next
  case False
  then have once: "normalize_if_needed blob = normalize_data_format blob"
    by (simp add: normalize_if_needed_def)
  show ?thesis
  proof (cases "needs_normalization (normalize_data_format blob) = ''No''")
    case True
    then show ?thesis by (simp add: once normalize_if_needed_def)
  next
    case rejected: False
    have twice: "normalize_if_needed (normalize_data_format blob)
        = normalize_data_format (normalize_data_format blob)"
      using rejected by (simp add: normalize_if_needed_def)
    from normalize_twice [of blob] obtain T where
      T: "normalize_data_format blob = join_str ('' +'' @ [CHR 0x0A]) (map canonical T)"
        "normalize_data_format (normalize_data_format blob)
           = join_str ('' +'' @ [CHR 0x0A]) (map (\<lambda>t. canonical (rewrap t)) T)"
      by (elim exE conjE) (rule that)
    show ?thesis
    proof (cases "normalize_data_format blob = []")
      case True
      have "normalize_if_needed [] = []" by code_simp
      with True show ?thesis by (simp add: once)
    next
      case nonempty: False
      then have "T \<noteq> []" using T(1) by auto
      have "length (normalize_data_format (normalize_data_format blob))
          = length (join_str ('' +'' @ [CHR 0x0A]) (map (\<lambda>t. canonical (rewrap t)) T))"
        by (simp only: T(2))
      also have "\<dots> = length (join_str ('' +'' @ [CHR 0x0A]) (map canonical T)) + 2 * length T"
        by (rule length_join_rewrap)
      also have "\<dots> = length (normalize_data_format blob) + 2 * length T"
        by (simp only: T(1))
      finally have "length (normalize_data_format (normalize_data_format blob))
          \<noteq> length (normalize_data_format blob)"
        using \<open>T \<noteq> []\<close> by simp
      then have "normalize_data_format (normalize_data_format blob) \<noteq> normalize_data_format blob"
        by auto
      with False rejected nonempty show ?thesis by (simp add: once twice)
    qed
  qed
qed

theorem normalize_if_needed_idempotent_iff_witness:
  "normalize_if_needed (normalize_if_needed ''1.0 [X0 Y1] + 2.0 [Z2]'')
     = normalize_if_needed ''1.0 [X0 Y1] + 2.0 [Z2]''
   \<and> needs_normalization (normalize_data_format ''-3.5e2 [Z0]'') \<noteq> ''No''
   \<and> normalize_if_needed (normalize_if_needed ''-3.5e2 [Z0]'') \<noteq> normalize_if_needed ''-3.5e2 [Z0]''"
proof (intro conjI)
  have "needs_normalization (normalize_data_format ''1.0 [X0 Y1] + 2.0 [Z2]'') = ''No''"
    by code_simp
  then show "normalize_if_needed (normalize_if_needed ''1.0 [X0 Y1] + 2.0 [Z2]'')
     = normalize_if_needed ''1.0 [X0 Y1] + 2.0 [Z2]''"
    using normalize_if_needed_idempotent_iff [of "''1.0 [X0 Y1] + 2.0 [Z2]''"] by blast
  show r: "needs_normalization (normalize_data_format ''-3.5e2 [Z0]'') \<noteq> ''No''"
    by code_simp
  have "needs_normalization ''-3.5e2 [Z0]'' \<noteq> ''No''" "normalize_data_format ''-3.5e2 [Z0]'' \<noteq> []"
    by code_simp+
  with r show "normalize_if_needed (normalize_if_needed ''-3.5e2 [Z0]'')
      \<noteq> normalize_if_needed ''-3.5e2 [Z0]''"
    using normalize_if_needed_idempotent_iff [of "''-3.5e2 [Z0]''"] by blast
qed

text \<open>
  Claim C8 as the specification states it fails. The detector accepts a coefficient of
  digits with an optional fraction and imaginary part only, the normalizer any text
  without whitespace: \<open>1e5 [X0]\<close> normalizes to \<open>(1e5) [X0]\<close>, which the detector does not
  report canonical, and which normalizes to \<open>((1e5)) [X0]\<close>.
\<close>

theorem normalize_if_needed_not_idempotent_counterexample:
  "normalize_if_needed ''1e5 [X0]'' = ''(1e5) [X0]''
   \<and> normalize_if_needed (normalize_if_needed ''1e5 [X0]'') = ''((1e5)) [X0]''
   \<and> normalize_if_needed (normalize_if_needed ''1e5 [X0]'') \<noteq> normalize_if_needed ''1e5 [X0]''"
  by code_simp

subsection \<open>The variable ranges\<close>

text \<open>
  Claim C5, as the code has it: with the records \<open>a_size-2\<close>, \<open>a_size-4\<close> and
  \<open>a_graph-ring_size-2\<close> and the constraint \<open>graph=ring\<close>, only the third record
  contributes, and it contributes every variable it has, the constrained one included:
  the report of the data set is \<open>graph\<close> with \<open>ring\<close> and \<open>size\<close> with \<open>2\<close>.
\<close>

theorem fixed_filter_keeps_fixed_variable:
  "foldl (scan_item (Some (''graph'', ''ring''))) []
       [''a_size-2'', ''a_size-4'', ''a_graph-ring_size-2'']
     = [(''graph'', [''ring'']), (''size'', [''2''])]
   \<and> scan_entry (map_of [(''a.hdf5'', [''a_size-2'', ''a_size-4'', ''a_graph-ring_size-2''])]) []
       ''a:a.hdf5:graph=ring''
     = Inr [(''a'', [(''graph'', [''ring'']), (''size'', [''2''])])]"
  by code_simp

text \<open>
  Claim C5 as the specification states it fails: the report of the data set is not the
  map of \<open>size\<close> to \<open>2\<close> alone, since it has \<open>graph\<close> too.
\<close>

theorem fixed_filter_counterexample:
  "map_of (foldl (scan_item (Some (''graph'', ''ring''))) []
       [''a_size-2'', ''a_size-4'', ''a_graph-ring_size-2''])
     \<noteq> map_of [(''size'', [''2''])]"
proof
  assume "map_of (foldl (scan_item (Some (''graph'', ''ring''))) []
       [''a_size-2'', ''a_size-4'', ''a_graph-ring_size-2''])
     = map_of [(''size'', [''2''])]"
  then have "map_of (foldl (scan_item (Some (''graph'', ''ring''))) []
       [''a_size-2'', ''a_size-4'', ''a_graph-ring_size-2'']) ''graph''
     = map_of [(''size'', [''2''])] ''graph''"
    by (rule arg_cong [where f = "\<lambda>m. m ''graph''"])
  moreover have "foldl (scan_item (Some (''graph'', ''ring''))) []
       [''a_size-2'', ''a_size-4'', ''a_graph-ring_size-2'']
     = [(''graph'', [''ring'']), (''size'', [''2''])]"
    by code_simp
  ultimately show False by simp
qed

text \<open>
  Claim C2 fails on the code: the function builds the report in \<open>results\<close> and prints
  it, but returns \<open>None\<close>. For a file \<open>a.hdf5\<close> with the records \<open>a_size-2\<close> and \<open>a_size-4\<close>
  the report maps \<open>a\<close> to \<open>size\<close> with the values \<open>2\<close> and \<open>4\<close>; the function prints two
  lines and returns \<open>None\<close>.
\<close>

theorem extract_variable_ranges_returns_None:
  "collect_results (map_of [(''a.hdf5'', [''a_size-2'', ''a_size-4''])]) [] [''a:a.hdf5'']
     = Inr [(''a'', [(''size'', [''2'', ''4''])])]
   \<and> extract_variable_ranges (map_of [(''a.hdf5'', [''a_size-2'', ''a_size-4''])]) [''a:a.hdf5'']
     = Inr ([Header ''a'', Values ''size'' [''2'', ''4'']], None)"
  by code_simp

subsection \<open>The order of the printed values\<close>




















end
